theory Spec2Isabelle
  imports Main
begin

section \<open>Data model\<close>

text \<open>
  The package \<^verbatim>\<open>extenderr\<close> exists in the repository in two editions of one file:
  the edition with the four single-capability wrappers (\<^verbatim>\<open>withHumanMessage\<close>,
  \<^verbatim>\<open>withErrorCode\<close>, \<^verbatim>\<open>withHttpStatus\<close>, \<^verbatim>\<open>withTags\<close>) and the edition with the
  combined wrapper \<^verbatim>\<open>extended\<close> (\<^verbatim>\<open>NewNamed\<close>, \<^verbatim>\<open>NewTags\<close>). Both are embedded here
  over one type of error values.

  A tag entry is a Go \<^verbatim>\<open>interface{}\<close>. Strings and integers are the entries the
  examples use; a slice stands for the dynamic types that Go cannot hash, on which
  a map assignment panics.
\<close>

datatype val = VStr string | VInt int | VSlice "val list"

fun hashable :: "val \<Rightarrow> bool" where
  "hashable (VStr _) = True"
| "hashable (VInt _) = True"
| "hashable (VSlice _) = False"

text \<open>
  A tag payload is a Go slice \<^verbatim>\<open>[]interface{}\<close>: a header that points into a
  backing array, which other slices may share. A variadic call with listed
  arguments makes a new array that the arguments fill; a call with \<^verbatim>\<open>s...\<close>
  passes the header of \<^verbatim>\<open>s\<close> itself. The header is the array, the offset of the
  first entry in it, the length and the capacity, both counted from the offset.
  The heap gives every array its cells. A cell is read below the length and written
  below the capacity only, which in Go lies inside the array, so the cells are
  indexed by all natural numbers and the length of the array is not kept.
\<close>

type_synonym addr = nat

record slice =
  s_arr :: addr
  s_off :: nat
  s_len :: nat
  s_cap :: nat

type_synonym heap = "addr \<Rightarrow> nat \<Rightarrow> val"

text \<open>
  The nil slice, which a variadic call with no arguments passes: no entry and no
  capacity.
\<close>

definition nilSlice :: slice where
  "nilSlice = \<lparr>s_arr = 0, s_off = 0, s_len = 0, s_cap = 0\<rparr>"

text \<open>The entries of a slice, \<^verbatim>\<open>s[0]\<close> to \<^verbatim>\<open>s[len(s)-1]\<close>, as the heap holds them.\<close>

definition contents :: "heap \<Rightarrow> slice \<Rightarrow> val list" where
  "contents h s = map (\<lambda>i. h (s_arr s) (s_off s + i)) [0..<s_len s]"

text \<open>
  Go's \<^verbatim>\<open>append(s, x)\<close>, as the heap after it and the entries of the slice it
  returns. With spare capacity the cell after the last entry is written in place,
  and every slice that holds this cell sees \<open>x\<close>; the result is \<open>s\<close> one entry
  longer. Without spare capacity the entries are copied to a new array, to which
  only the result refers: no cell of an existing array changes.
\<close>

definition append1 :: "heap \<Rightarrow> slice \<Rightarrow> val \<Rightarrow> heap \<times> val list" where
  "append1 h s x =
     (if s_len s < s_cap s
      then (let h' = h(s_arr s := (h (s_arr s))(s_off s + s_len s := x))
            in (h', contents h' (s\<lparr>s_len := s_len s + 1\<rparr>)))
      else (h, contents h s @ [x]))"

type_synonym Name = string

text \<open>
  An error of a type declared outside the package: what its \<^verbatim>\<open>Error()\<close> returns,
  and for each of the four capability interfaces whether the type has the method
  (\<open>Some\<close> the value it returns) or not (\<open>None\<close>). \<^verbatim>\<open>Tags()\<close> returns a slice.
\<close>

record foreign =
  f_Error :: string
  f_HumanMessage :: "string option"
  f_ErrorCode :: "int option"
  f_HttpStatus :: "int option"
  f_Tags :: "slice option"

text \<open>Which of the two chain methods a foreign wrapper type has.\<close>

datatype link = UnwrapOnly | CauseOnly | UnwrapAndCause

text \<open>
  A value of the interface type \<^verbatim>\<open>error\<close>: nil, a foreign error with no inner
  error, a foreign wrapper, or a pointer to one of the package's structs. The
  structs keep their Go names; the first field is the embedded \<^verbatim>\<open>error\<close>.
  Go's \<^verbatim>\<open>int\<close> is embedded as \<open>int\<close>: the package stores, compares with zero
  and prints codes, and does no arithmetic on them.
\<close>

datatype error =
    ErrNil
  | Foreign foreign
  | ForeignWrap foreign link error
  | withHumanMessage error string
  | withErrorCode error int
  | withHttpStatus error int
  | withTags error slice
  | extended error Name slice

text \<open>
  What can go wrong at run time in the code embedded below: a method call on a nil
  interface, an index past the end of a slice, a map key of an unhashable type.
\<close>

datatype fault = NilDereference | IndexOutOfRange | UnhashableKey

section \<open>Capability probes\<close>

text \<open>
  Each probe is a type assertion of the source: \<open>None\<close> when the assertion's
  \<^verbatim>\<open>ok\<close> is false, \<open>Some\<close> of what the method returns otherwise. Embedding the
  interface \<^verbatim>\<open>error\<close> in a struct promotes \<^verbatim>\<open>Error()\<close> only, so a wrapper has
  the methods declared on it and no capability of its inner error.
\<close>

text \<open>\<^verbatim>\<open>err.(wrapper)\<close> and \<^verbatim>\<open>Unwrap()\<close> (both editions).\<close>

fun unwrap :: "error \<Rightarrow> error option" where
  "unwrap ErrNil = None"
| "unwrap (Foreign f) = None"
| "unwrap (ForeignWrap f l e) = (if l = CauseOnly then None else Some e)"
| "unwrap (withHumanMessage e m) = Some e"
| "unwrap (withErrorCode e c) = Some e"
| "unwrap (withHttpStatus e c) = Some e"
| "unwrap (withTags e kvs) = Some e"
| "unwrap (extended e n kvs) = Some e"

text \<open>
  The \<^verbatim>\<open>Cause()\<close> method, which \<^verbatim>\<open>errors.Cause\<close> follows. Of the package's
  types only \<^verbatim>\<open>extended\<close> declares it.
\<close>

fun cause :: "error \<Rightarrow> error option" where
  "cause (ForeignWrap f l e) = (if l = UnwrapOnly then None else Some e)"
| "cause (extended e n kvs) = Some e"
| "cause _ = None"

text \<open>\<^verbatim>\<open>err.(humanMessage)\<close>\<close>

fun asHumanMessage :: "error \<Rightarrow> string option" where
  "asHumanMessage (Foreign f) = f_HumanMessage f"
| "asHumanMessage (ForeignWrap f l e) = f_HumanMessage f"
| "asHumanMessage (withHumanMessage e m) = Some m"
| "asHumanMessage _ = None"

text \<open>\<^verbatim>\<open>err.(errorCoder)\<close>\<close>

fun asErrorCoder :: "error \<Rightarrow> int option" where
  "asErrorCoder (Foreign f) = f_ErrorCode f"
| "asErrorCoder (ForeignWrap f l e) = f_ErrorCode f"
| "asErrorCoder (withErrorCode e c) = Some c"
| "asErrorCoder _ = None"

text \<open>\<^verbatim>\<open>err.(httpStatuser)\<close>\<close>

fun asHttpStatuser :: "error \<Rightarrow> int option" where
  "asHttpStatuser (Foreign f) = f_HttpStatus f"
| "asHttpStatuser (ForeignWrap f l e) = f_HttpStatus f"
| "asHttpStatuser (withHttpStatus e c) = Some c"
| "asHttpStatuser _ = None"

text \<open>
  \<^verbatim>\<open>err.(tagger)\<close> in one edition, \<^verbatim>\<open>err.(tagged)\<close> in the other: the same
  method set, \<^verbatim>\<open>Tags() []interface{}\<close>.
\<close>

fun asTagger :: "error \<Rightarrow> slice option" where
  "asTagger (Foreign f) = f_Tags f"
| "asTagger (ForeignWrap f l e) = f_Tags f"
| "asTagger (withTags e kvs) = Some kvs"
| "asTagger (extended e n kvs) = Some kvs"
| "asTagger _ = None"

section \<open>Constructors\<close>

definition WithHumanMessage :: "error \<Rightarrow> string \<Rightarrow> error" where
  "WithHumanMessage err message =
     (if err = ErrNil then err else withHumanMessage err message)"

definition WithErrorCode :: "error \<Rightarrow> int \<Rightarrow> error" where
  "WithErrorCode err errorCode =
     (if err = ErrNil then err else withErrorCode err errorCode)"

definition WithHttpStatus :: "error \<Rightarrow> int \<Rightarrow> error" where
  "WithHttpStatus err status =
     (if err = ErrNil then err else withHttpStatus err status)"

definition WithTags :: "error \<Rightarrow> slice \<Rightarrow> error" where
  "WithTags err keysAndValues =
     (if err = ErrNil then err else withTags err keysAndValues)"

text \<open>The constructors of the combined edition have no test for nil.\<close>

definition NewNamed :: "error \<Rightarrow> Name \<Rightarrow> slice \<Rightarrow> error" where
  "NewNamed err name keysAndValues = extended err name keysAndValues"

definition NewTags :: "error \<Rightarrow> slice \<Rightarrow> error" where
  "NewTags err keysAndValues = extended err [] keysAndValues"

section \<open>The chain walker\<close>

text \<open>
  An \<^verbatim>\<open>errorIterator\<close> is a closure over variables of the calling function. The
  embedding passes those variables as a state \<open>'s\<close>: the iterator takes the node
  and the state and returns the stop signal with the new state, or the fault that
  ends the whole call.
\<close>

type_synonym 's errorIterator = "error \<Rightarrow> 's \<Rightarrow> fault + bool \<times> 's"

text \<open>
  The loop and the final \<^verbatim>\<open>return f(err)\<close>, which both editions of
  \<^verbatim>\<open>walkErrorChain\<close> have word for word:
  \<^verbatim>\<open>
  for err != nil {
      if f(err) { return true }
      w, ok := err.(wrapper)
      if !ok { break }
      err = w.Unwrap()
  }
  return f(err)
  \<close>
\<close>

function walkLoop :: "'s errorIterator \<Rightarrow> error \<Rightarrow> 's \<Rightarrow> fault + bool \<times> 's" where
  "walkLoop f err s =
     (if err = ErrNil then f err s
      else case f err s of
        Inl p \<Rightarrow> Inl p
      | Inr (stop, s') \<Rightarrow>
          if stop then Inr (True, s')
          else (case unwrap err of
                  None \<Rightarrow> f err s'
                | Some inner \<Rightarrow> walkLoop f inner s'))"
  by pat_completeness auto
termination
  by (relation "measure (\<lambda>(f, err, s). size err)")
     (auto elim!: unwrap.elims split: if_splits)

declare walkLoop.simps [simp del]

text \<open>The edition with the four wrappers returns early on nil.\<close>

definition walkErrorChain :: "'s errorIterator \<Rightarrow> error \<Rightarrow> 's \<Rightarrow> fault + bool \<times> 's" where
  "walkErrorChain f err s = (if err = ErrNil then Inr (False, s) else walkLoop f err s)"

text \<open>The combined edition's \<^verbatim>\<open>walkErrorChain\<close> is the loop alone.\<close>

definition walkErrorChain_ext :: "'s errorIterator \<Rightarrow> error \<Rightarrow> 's \<Rightarrow> fault + bool \<times> 's" where
  "walkErrorChain_ext f err s = walkLoop f err s"

text \<open>What a function returns after a walk: the captured variable, or the fault.\<close>

definition captured :: "fault + bool \<times> 's \<Rightarrow> fault + 's" where
  "captured r = (case r of Inl p \<Rightarrow> Inl p | Inr (stop, s) \<Rightarrow> Inr s)"

section \<open>Extraction of the singular capabilities\<close>

text \<open>The iterator of \<^verbatim>\<open>HumanMessage\<close>; the state is the variable \<^verbatim>\<open>message\<close>.\<close>

definition humanMessageIter :: "string errorIterator" where
  "humanMessageIter err message =
     (let message' = (case asHumanMessage err of Some m \<Rightarrow> m | None \<Rightarrow> message)
      in Inr (message' \<noteq> [], message'))"

definition HumanMessage :: "error \<Rightarrow> fault + string" where
  "HumanMessage errToWalk =
     (if errToWalk = ErrNil then Inr []
      else captured (walkErrorChain humanMessageIter errToWalk []))"

text \<open>The iterator of \<^verbatim>\<open>ErrorCode\<close>; the state is the variable \<^verbatim>\<open>errorCode\<close>.\<close>

definition errorCodeIter :: "int errorIterator" where
  "errorCodeIter err errorCode =
     (let errorCode' = (case asErrorCoder err of Some c \<Rightarrow> c | None \<Rightarrow> errorCode)
      in Inr (errorCode' \<noteq> 0, errorCode'))"

definition ErrorCode :: "error \<Rightarrow> fault + int" where
  "ErrorCode errToWalk =
     (if errToWalk = ErrNil then Inr 0
      else captured (walkErrorChain errorCodeIter errToWalk 0))"

text \<open>The iterator of \<^verbatim>\<open>HttpStatus\<close>; the state is the variable \<^verbatim>\<open>status\<close>.\<close>

definition httpStatusIter :: "int errorIterator" where
  "httpStatusIter err status =
     (let status' = (case asHttpStatuser err of Some c \<Rightarrow> c | None \<Rightarrow> status)
      in Inr (status' \<noteq> 0, status'))"

definition HttpStatus :: "error \<Rightarrow> fault + int" where
  "HttpStatus errToWalk =
     (if errToWalk = ErrNil then Inr 0
      else captured (walkErrorChain httpStatusIter errToWalk 0))"

section \<open>Extraction of tags\<close>

text \<open>
  The iterator of \<^verbatim>\<open>Tags\<close> and of \<^verbatim>\<open>GetTags\<close>; the state is \<^verbatim>\<open>allTags\<close>, a slice
  that the function makes and no other slice shares, kept as its entries. The
  iterator reads the payload from the heap and writes no cell of it.
\<close>

definition tagsIter :: "heap \<Rightarrow> val list errorIterator" where
  "tagsIter h err allTags =
     Inr (False, case asTagger err of Some t \<Rightarrow> allTags @ contents h t | None \<Rightarrow> allTags)"

definition Tags :: "heap \<Rightarrow> error \<Rightarrow> fault + val list" where
  "Tags h errToWalk = captured (walkErrorChain (tagsIter h) errToWalk [])"

definition GetTags :: "heap \<Rightarrow> error \<Rightarrow> fault + val list" where
  "GetTags h errToWalk = captured (walkErrorChain_ext (tagsIter h) errToWalk [])"

text \<open>
  The pairing loop of \<^verbatim>\<open>TagMap\<close> and \<^verbatim>\<open>GetTagMap\<close>:
  \<^verbatim>\<open>for i:=0; i<len(tags); i=i+2 { allTags[tags[i]] = tags[i+1] }\<close>.
  Go evaluates both index expressions before the assignment, so an index past the
  end panics before the key is hashed. The loop writes the map and no cell of the
  heap, so it runs over the entries of \<^verbatim>\<open>tags\<close>.
\<close>

function putPairs :: "val list \<Rightarrow> nat \<Rightarrow> (val \<rightharpoonup> val) \<Rightarrow> fault + (val \<rightharpoonup> val)" where
  "putPairs tags i allTags =
     (if i < length tags then
        (if i + 1 < length tags then
           (if hashable (tags ! i)
            then putPairs tags (i + 2) (allTags(tags ! i \<mapsto> tags ! (i + 1)))
            else Inl UnhashableKey)
         else Inl IndexOutOfRange)
      else Inr allTags)"
  by pat_completeness auto
termination
  by (relation "measure (\<lambda>(tags, i, allTags). length tags - i)") auto

declare putPairs.simps [simp del]

text \<open>
  The iterator of \<^verbatim>\<open>TagMap\<close> and of \<^verbatim>\<open>GetTagMap\<close>. The state is the map
  \<^verbatim>\<open>allTags\<close> and the heap: \<^verbatim>\<open>tags = append(tags, "unbalanced tag")\<close> writes the
  sentinel into the backing array of the payload when the payload has spare
  capacity.
\<close>

definition tagMapIter :: "((val \<rightharpoonup> val) \<times> heap) errorIterator" where
  "tagMapIter err st =
     (case asTagger err of
        None \<Rightarrow> Inr (False, st)
      | Some tags \<Rightarrow>
          (let (h', tags') = (if s_len tags mod 2 \<noteq> 0
                              then append1 (snd st) tags (VStr ''unbalanced tag'')
                              else (snd st, contents (snd st) tags))
           in case putPairs tags' 0 (fst st) of
                Inl p \<Rightarrow> Inl p
              | Inr m \<Rightarrow> Inr (False, (m, h'))))"

text \<open>Both functions return the map; the heap after the call is given with it.\<close>

definition TagMap :: "heap \<Rightarrow> error \<Rightarrow> fault + (val \<rightharpoonup> val) \<times> heap" where
  "TagMap h errToWalk = captured (walkErrorChain tagMapIter errToWalk (Map.empty, h))"

definition GetTagMap :: "heap \<Rightarrow> error \<Rightarrow> fault + (val \<rightharpoonup> val) \<times> heap" where
  "GetTagMap h errToWalk = captured (walkErrorChain_ext tagMapIter errToWalk (Map.empty, h))"

section \<open>Names\<close>

definition IsNamed :: "error \<Rightarrow> Name \<Rightarrow> bool" where
  "IsNamed err name =
     (case err of
        extended e n kvs \<Rightarrow> (if n = [] then False else n = name)
      | _ \<Rightarrow> False)"

definition isNamedIter :: "Name \<Rightarrow> unit errorIterator" where
  "isNamedIter name err u = Inr (IsNamed err name, u)"

definition IsAnyCauseNamed :: "error \<Rightarrow> Name \<Rightarrow> fault + bool" where
  "IsAnyCauseNamed errToWalk name =
     map_sum id fst (walkErrorChain_ext (isNamedIter name) errToWalk ())"

text \<open>
  Modelled from the spec: \<^verbatim>\<open>errors.Cause\<close> of the imported package
  \<^verbatim>\<open>github.com/pkg/errors\<close>, whose source is not in the repository. It resolves
  the root cause, the innermost node: it goes to the inner error until a node
  exposes none or the error is nil, and returns where it stopped. The package
  reads the inner error with \<^verbatim>\<open>Cause()\<close>, which on \<^verbatim>\<open>extended\<close> returns what
  \<^verbatim>\<open>Unwrap()\<close> returns.
\<close>

function errors_Cause :: "error \<Rightarrow> error" where
  "errors_Cause err =
     (if err = ErrNil then err
      else case cause err of None \<Rightarrow> err | Some inner \<Rightarrow> errors_Cause inner)"
  by pat_completeness auto
termination
  by (relation "measure size") (auto elim!: cause.elims split: if_splits)

declare errors_Cause.simps [simp del]

definition IsRootCauseNamed :: "error \<Rightarrow> Name \<Rightarrow> bool" where
  "IsRootCauseNamed errToWalk name = IsNamed (errors_Cause errToWalk) name"

section \<open>Rendering\<close>

text \<open>The decimal digits of a natural number, and \<^verbatim>\<open>%d\<close> of \<^verbatim>\<open>fmt.Sprintf\<close>.\<close>

definition digit :: "nat \<Rightarrow> char" where
  "digit n = ''0123456789'' ! (n mod 10)"

function digits :: "nat \<Rightarrow> string" where
  "digits n = (if n < 10 then [digit n] else digits (n div 10) @ [digit n])"
  by pat_completeness auto
termination
  by (relation "measure id") auto

declare digits.simps [simp del]

definition fmt_d :: "int \<Rightarrow> string" where
  "fmt_d i = (if i < 0 then CHR ''-'' # digits (nat (- i)) else digits (nat i))"

text \<open>
  The \<^verbatim>\<open>Error()\<close> methods. Each wrapper calls \<^verbatim>\<open>Error()\<close> on its inner error,
  which is a nil dereference when that is nil.
\<close>

fun Error :: "error \<Rightarrow> fault + string" where
  "Error ErrNil = Inl NilDereference"
| "Error (Foreign f) = Inr (f_Error f)"
| "Error (ForeignWrap f l e) = Inr (f_Error f)"
| "Error (withHumanMessage e message) = map_sum id (\<lambda>d. message @ '': '' @ d) (Error e)"
| "Error (withErrorCode e errorCode) =
     map_sum id (\<lambda>d. ''error code '' @ fmt_d errorCode @ '' : '' @ d) (Error e)"
| "Error (withHttpStatus e httpStatus) =
     map_sum id (\<lambda>d. ''http status '' @ fmt_d httpStatus @ '' : '' @ d) (Error e)"
| "Error (withTags e kvs) = Error e"
| "Error (extended e name kvs) = map_sum id (\<lambda>d. name @ '': '' @ d) (Error e)"

section \<open>The chain as a list, and what the extraction functions are specified to return\<close>

text \<open>
  The definitions of this section are not translations of code. They describe a
  chain the way the specification speaks of it, and the theorems below compare the
  embedded functions with them.
\<close>

text \<open>A root error of a foreign type with no capability, like \<^verbatim>\<open>errors.New(d)\<close>.\<close>

definition plainError :: "string \<Rightarrow> error" where
  "plainError d =
     Foreign \<lparr>f_Error = d, f_HumanMessage = None, f_ErrorCode = None,
              f_HttpStatus = None, f_Tags = None\<rparr>"

text \<open>
  A foreign error with no inner error that implements the tag capability alone.
\<close>

definition taggedLeaf :: "string \<Rightarrow> slice \<Rightarrow> error" where
  "taggedLeaf d kvs =
     Foreign \<lparr>f_Error = d, f_HumanMessage = None, f_ErrorCode = None,
              f_HttpStatus = None, f_Tags = Some kvs\<rparr>"

text \<open>
  The nodes of a chain in chain order, the outermost first: the non-nil errors
  reached by following \<^verbatim>\<open>Unwrap()\<close>.
\<close>

function chain :: "error \<Rightarrow> error list" where
  "chain err =
     (if err = ErrNil then []
      else err # (case unwrap err of None \<Rightarrow> [] | Some inner \<Rightarrow> chain inner))"
  by pat_completeness auto
termination
  by (relation "measure size") (auto elim!: unwrap.elims split: if_splits)

declare chain.simps [simp del]

text \<open>
  The value of \<^verbatim>\<open>err\<close> when the loop of the walker is left without a stop: the
  node that has no \<^verbatim>\<open>Unwrap()\<close>, or nil when the last \<^verbatim>\<open>Unwrap()\<close> returned nil.
\<close>

function lastCall :: "error \<Rightarrow> error" where
  "lastCall err =
     (if err = ErrNil then ErrNil
      else case unwrap err of None \<Rightarrow> err | Some inner \<Rightarrow> lastCall inner)"
  by pat_completeness auto
termination
  by (relation "measure size") (auto elim!: unwrap.elims split: if_splits)

declare lastCall.simps [simp del]

text \<open>
  An iterator that also records, in order, the nodes it is invoked on. It makes the
  invocations of an iterator a value that theorems can speak about.
\<close>

definition traced :: "'s errorIterator \<Rightarrow> ('s \<times> error list) errorIterator" where
  "traced f err st =
     (case f err (fst st) of
        Inl p \<Rightarrow> Inl p
      | Inr (stop, s') \<Rightarrow> Inr (stop, (s', snd st @ [err])))"

text \<open>
  The invocations of a walk over the nodes \<open>xs\<close> whose iterator stops at the nodes
  that satisfy \<open>stop\<close>: the nodes up to the first such node, that node included;
  when there is none, all of \<open>xs\<close> and then \<open>final\<close>.
\<close>

fun invocations :: "(error \<Rightarrow> bool) \<Rightarrow> error list \<Rightarrow> error \<Rightarrow> error list" where
  "invocations stop [] final = [final]"
| "invocations stop (x # xs) final =
     (if stop x then [x] else x # invocations stop xs final)"

text \<open>The values of the nodes that implement a capability, in chain order.\<close>

definition values_of :: "(error \<Rightarrow> 'a option) \<Rightarrow> error \<Rightarrow> 'a list" where
  "values_of probe e = List.map_filter probe (chain e)"

text \<open>
  The claim as the specification words it: the value of the first node that
  implements the capability, the zero value when there is none.
\<close>

definition firstMatch :: "'a \<Rightarrow> 'a list \<Rightarrow> 'a" where
  "firstMatch zero vs = (case vs of [] \<Rightarrow> zero | v # _ \<Rightarrow> v)"

text \<open>The first value that is not the zero value, the zero value when there is none.\<close>

definition firstSet :: "'a \<Rightarrow> 'a list \<Rightarrow> 'a" where
  "firstSet zero vs = (case find (\<lambda>v. v \<noteq> zero) vs of Some v \<Rightarrow> v | None \<Rightarrow> zero)"

text \<open>What a node holds of a capability, the zero value when it has none.\<close>

definition valueAt :: "(error \<Rightarrow> 'a option) \<Rightarrow> 'a \<Rightarrow> error \<Rightarrow> 'a" where
  "valueAt probe zero x = (case probe x of Some v \<Rightarrow> v | None \<Rightarrow> zero)"

text \<open>
  Heaps and slices for examples: a heap whose cells all hold 0, a heap with the
  array \<open>a\<close> filled with the entries \<open>xs\<close>, and the slice over the first \<open>n\<close> cells
  of the array \<open>a\<close> with no spare capacity, which is the slice that a variadic call
  with \<open>n\<close> listed arguments makes.
\<close>

definition emptyHeap :: heap where
  "emptyHeap = (\<lambda>a i. VInt 0)"

definition arrayOf :: "val list \<Rightarrow> nat \<Rightarrow> val" where
  "arrayOf xs i = (if i < length xs then xs ! i else VInt 0)"

definition store :: "heap \<Rightarrow> addr \<Rightarrow> val list \<Rightarrow> heap" where
  "store h a xs = h(a := arrayOf xs)"

definition whole :: "addr \<Rightarrow> nat \<Rightarrow> slice" where
  "whole a n = \<lparr>s_arr = a, s_off = 0, s_len = n, s_cap = n\<rparr>"

text \<open>The slice \<^verbatim>\<open>a[:n]\<close> of an array of \<open>c\<close> cells: \<open>c - n\<close> cells are spare.\<close>

definition upto :: "addr \<Rightarrow> nat \<Rightarrow> nat \<Rightarrow> slice" where
  "upto a n c = \<lparr>s_arr = a, s_off = 0, s_len = n, s_cap = c\<rparr>"

text \<open>The tag payload of a node, empty when the node has no tags.\<close>

definition payload :: "heap \<Rightarrow> error \<Rightarrow> val list" where
  "payload h x = (case asTagger x of Some t \<Rightarrow> contents h t | None \<Rightarrow> [])"

text \<open>A payload read as keys and values, two entries at a time.\<close>

fun pairs :: "val list \<Rightarrow> (val \<times> val) list" where
  "pairs (k # v # rest) = (k, v) # pairs rest"
| "pairs _ = []"

text \<open>A payload of odd length made even with the sentinel.\<close>

definition padded :: "val list \<Rightarrow> val list" where
  "padded tags = (if odd (length tags) then tags @ [VStr ''unbalanced tag''] else tags)"

text \<open>
  Pairs put into a map in their order, a later pair over an earlier one with its
  key. A key that cannot be hashed ends it with the panic of the map assignment;
  there is no other fault.
\<close>

fun putAll :: "(val \<times> val) list \<Rightarrow> (val \<rightharpoonup> val) \<Rightarrow> fault + (val \<rightharpoonup> val)" where
  "putAll [] m = Inr m"
| "putAll ((k, v) # ps) m = (if hashable k then putAll ps (m(k \<mapsto> v)) else Inl UnhashableKey)"

text \<open>
  The heap after the tag-map iterator has visited a node: a payload of odd length
  has had the sentinel appended.
\<close>

definition heapAfter :: "heap \<Rightarrow> error \<Rightarrow> heap" where
  "heapAfter h x =
     (case asTagger x of
        None \<Rightarrow> h
      | Some s \<Rightarrow> if odd (s_len s) then fst (append1 h s (VStr ''unbalanced tag'')) else h)"

text \<open>The map of one node: of two pairs with one key, the later one counts.\<close>

definition nodeMap :: "heap \<Rightarrow> error \<Rightarrow> (val \<rightharpoonup> val)" where
  "nodeMap h x = map_of (rev (pairs (padded (payload h x))))"

text \<open>Every key of every node of the chain is of a type that Go can hash.\<close>

definition keysHashable :: "heap \<Rightarrow> error \<Rightarrow> bool" where
  "keysHashable h e =
     list_all (\<lambda>x. list_all (\<lambda>kv. hashable (fst kv)) (pairs (padded (payload h x)))) (chain e)"

text \<open>
  No payload of odd length in the chain has spare capacity: no append of the
  sentinel writes a cell of the heap.
\<close>

definition noSpare :: "error \<Rightarrow> bool" where
  "noSpare e =
     list_all (\<lambda>x. case asTagger x of
                      None \<Rightarrow> True
                    | Some s \<Rightarrow> even (s_len s) \<or> s_cap s \<le> s_len s) (chain e)"

text \<open>
  The merged map: the maps of the nodes added from the outermost to the innermost,
  so that on a key of both the value of the inner node stays.
\<close>

definition tagMapSpec :: "heap \<Rightarrow> error \<Rightarrow> (val \<rightharpoonup> val)" where
  "tagMapSpec h e = foldl (++) Map.empty (map (nodeMap h) (chain e))"

text \<open>The Go expression \<^verbatim>\<open>TagMap(chain)[k]\<close>: the entry of a merged map under a key.\<close>

definition tagAt :: "fault + (val \<rightharpoonup> val) \<times> heap \<Rightarrow> val \<Rightarrow> fault + val option" where
  "tagAt r k = (case r of Inl p \<Rightarrow> Inl p | Inr (m, h) \<Rightarrow> Inr (m k))"

text \<open>
  Reading a decimal numeral back: the value of a digit character and of a string
  of digits. They state what \<open>digits\<close> is to produce.
\<close>

definition digitValue :: "char \<Rightarrow> nat" where
  "digitValue ch = of_char ch - 48"

definition readDigits :: "string \<Rightarrow> nat" where
  "readDigits cs = foldl (\<lambda>a ch. 10 * a + digitValue ch) 0 cs"

section \<open>Lemmas on the walker\<close>

lemma chain_ErrNil [simp]: "chain ErrNil = []"
  by (simp add: chain.simps)

lemma lastCall_ErrNil [simp]: "lastCall ErrNil = ErrNil"
  by (simp add: lastCall.simps)

lemma walkLoop_ErrNil [simp]: "walkLoop f ErrNil s = f ErrNil s"
  by (simp add: walkLoop.simps)

lemma lastCall_chain:
  "lastCall e = (if chain e \<noteq> [] \<and> unwrap (last (chain e)) = None then last (chain e) else ErrNil)"
proof (induction e rule: chain.induct)
  case (1 err)
  show ?case
  proof (cases "err = ErrNil")
    case True
    then show ?thesis by simp
  next
    case False
    show ?thesis
    proof (cases "unwrap err")
      case None
      with False show ?thesis
        by (simp add: chain.simps [of err] lastCall.simps [of err])
    next
      case (Some inner)
      with False "1.IH" [of inner] show ?thesis
        by (auto simp add: chain.simps [of err] lastCall.simps [of err])
    qed
  qed
qed

lemma walkLoop_never_stop:
  assumes "\<forall>x \<in> set (chain e @ [lastCall e]). \<forall>s. f x s = Inr (False, g x s)"
  shows "walkLoop f e s = Inr (False, foldl (\<lambda>s x. g x s) s (chain e @ [lastCall e]))"
  using assms
proof (induction e arbitrary: s rule: chain.induct)
  case (1 err)
  show ?case
  proof (cases "err = ErrNil")
    case True
    with "1.prems" show ?thesis by simp
  next
    case False
    show ?thesis
    proof (cases "unwrap err")
      case None
      with False "1.prems" show ?thesis
        by (simp add: chain.simps [of err] lastCall.simps [of err] walkLoop.simps [of f err])
    next
      case (Some inner)
      from False Some "1.prems" have pre: "\<forall>x \<in> set (chain inner @ [lastCall inner]). \<forall>s. f x s = Inr (False, g x s)"
        by (simp add: chain.simps [of err] lastCall.simps [of err])
      from False Some "1.prems" have here: "\<forall>s. f err s = Inr (False, g err s)"
        by (simp add: chain.simps [of err])
      from "1.IH" [OF False Some pre] False Some here show ?thesis
        by (simp add: chain.simps [of err] lastCall.simps [of err] walkLoop.simps [of f err])
    qed
  qed
qed


lemma firstSet_Nil [simp]: "firstSet z [] = z"
  by (simp add: firstSet_def)

lemma firstSet_Cons [simp]: "firstSet z (v # vs) = (if v \<noteq> z then v else firstSet z vs)"
  by (simp add: firstSet_def)

lemma values_of_ErrNil [simp]: "values_of probe ErrNil = []"
  by (simp add: values_of_def map_filter_simps)

lemma values_of_step:
  "e \<noteq> ErrNil \<Longrightarrow> values_of probe e =
     (case probe e of None \<Rightarrow> [] | Some v \<Rightarrow> [v]) @
     (case unwrap e of None \<Rightarrow> [] | Some inner \<Rightarrow> values_of probe inner)"
  by (simp add: values_of_def chain.simps [of e] map_filter_simps split: option.splits)

lemma walkLoop_first:
  assumes f: "\<And>x. f x z = Inr ((case probe x of Some v \<Rightarrow> v | None \<Rightarrow> z) \<noteq> z, (case probe x of Some v \<Rightarrow> v | None \<Rightarrow> z))"
    and nil: "probe ErrNil = None"
  shows "walkLoop f e z = Inr (firstSet z (values_of probe e) \<noteq> z, firstSet z (values_of probe e))"
proof (induction e rule: chain.induct)
  case (1 err)
  show ?case
  proof (cases "err = ErrNil")
    case True
    then show ?thesis by (simp add: f nil)
  next
    case False
    show ?thesis
    proof (cases "unwrap err")
      case None
      with False show ?thesis
        by (simp add: values_of_step walkLoop.simps [of f err] f split: option.splits)
    next
      case (Some inner)
      with False "1.IH" [of inner] show ?thesis
        by (simp add: values_of_step walkLoop.simps [of f err] f split: option.splits)
    qed
  qed
qed

lemma ErrorCode_first: "ErrorCode e = Inr (firstSet 0 (values_of asErrorCoder e))"
proof (cases "e = ErrNil")
  case True
  then show ?thesis by (simp add: ErrorCode_def)
next
  case False
  have "walkLoop errorCodeIter e 0 =
      Inr (firstSet 0 (values_of asErrorCoder e) \<noteq> 0, firstSet 0 (values_of asErrorCoder e))"
    by (rule walkLoop_first) (simp_all add: errorCodeIter_def Let_def)
  with False show ?thesis
    by (simp add: ErrorCode_def walkErrorChain_def captured_def)
qed

lemma HttpStatus_first: "HttpStatus e = Inr (firstSet 0 (values_of asHttpStatuser e))"
proof (cases "e = ErrNil")
  case True
  then show ?thesis by (simp add: HttpStatus_def)
next
  case False
  have "walkLoop httpStatusIter e 0 =
      Inr (firstSet 0 (values_of asHttpStatuser e) \<noteq> 0, firstSet 0 (values_of asHttpStatuser e))"
    by (rule walkLoop_first) (simp_all add: httpStatusIter_def Let_def)
  with False show ?thesis
    by (simp add: HttpStatus_def walkErrorChain_def captured_def)
qed

lemma HumanMessage_first: "HumanMessage e = Inr (firstSet [] (values_of asHumanMessage e))"
proof (cases "e = ErrNil")
  case True
  then show ?thesis by (simp add: HumanMessage_def)
next
  case False
  have "walkLoop humanMessageIter e [] =
      Inr (firstSet [] (values_of asHumanMessage e) \<noteq> [], firstSet [] (values_of asHumanMessage e))"
    by (rule walkLoop_first) (simp_all add: humanMessageIter_def Let_def)
  with False show ?thesis
    by (simp add: HumanMessage_def walkErrorChain_def captured_def)
qed


section \<open>Lemmas on slices and on the extraction of tags\<close>

text \<open>
  Appending one entry gives the entries of the slice and the new one, in place or
  in a new array; without spare capacity no cell of the heap changes.
\<close>

lemma length_contents [simp]: "length (contents h s) = s_len s"
  by (simp add: contents_def)

lemma append1_contents: "snd (append1 h s x) = contents h s @ [x]"
  by (simp add: append1_def contents_def Let_def)

lemma append1_no_spare: "s_cap s \<le> s_len s \<Longrightarrow> fst (append1 h s x) = h"
  by (simp add: append1_def)

text \<open>
  \<^verbatim>\<open>Tags\<close> and \<^verbatim>\<open>GetTags\<close> return the payloads of the nodes in chain order and
  then the payload of the node of the final call.
\<close>

lemma tagsIter_payload: "tagsIter h x s = Inr (False, s @ payload h x)"
  by (simp add: tagsIter_def payload_def split: option.splits)

lemma foldl_append_payload:
  "foldl (\<lambda>s x. s @ payload h x) s xs = s @ concat (map (payload h) xs)"
  by (induction xs arbitrary: s) simp_all

lemma walkLoop_tagsIter:
  "walkLoop (tagsIter h) e s =
     Inr (False, s @ concat (map (payload h) (chain e)) @ payload h (lastCall e))"
proof -
  have "walkLoop (tagsIter h) e s =
      Inr (False, foldl (\<lambda>s x. (\<lambda>x s. s @ payload h x) x s) s (chain e @ [lastCall e]))"
    by (rule walkLoop_never_stop) (simp add: tagsIter_payload)
  then show ?thesis
    by (simp add: foldl_append_payload)
qed

lemma payload_ErrNil [simp]: "payload h ErrNil = []"
  by (simp add: payload_def)

lemma Tags_spec:
  "Tags h e = Inr (concat (map (payload h) (chain e)) @ payload h (lastCall e))"
  by (cases "e = ErrNil") (simp_all add: Tags_def walkErrorChain_def captured_def walkLoop_tagsIter)

lemma GetTags_spec:
  "GetTags h e = Inr (concat (map (payload h) (chain e)) @ payload h (lastCall e))"
  by (simp add: GetTags_def walkErrorChain_ext_def captured_def walkLoop_tagsIter)

text \<open>
  On a list of even length the pairing loop puts the pairs of the list into the
  map in their order. No index leaves the list.
\<close>

lemma putPairs_putAll:
  "even (length tags) \<Longrightarrow> even i \<Longrightarrow> putPairs tags i m = putAll (pairs (drop i tags)) m"
proof (induction tags i m rule: putPairs.induct)
  case (1 tags i allTags)
  show ?case
  proof (cases "i < length tags")
    case False
    then show ?thesis by (simp add: putPairs.simps [of tags i])
  next
    case True
    with "1.prems" have lt: "i + 1 < length tags"
      by (metis Suc_eq_plus1 Suc_lessI even_Suc)
    then have dr: "drop i tags = tags ! i # tags ! (i + 1) # drop (i + 2) tags"
      by (metis Cons_nth_drop_Suc Suc_eq_plus1 True add_2_eq_Suc')
    from "1.prems" have ev: "even (i + 2)" by simp
    show ?thesis
    proof (cases "hashable (tags ! i)")
      case False
      with True lt show ?thesis
        by (subst dr) (simp add: putPairs.simps [of tags i])
    next
      case h: True
      have step: "putPairs tags i allTags =
          putPairs tags (i + 2) (allTags(tags ! i \<mapsto> tags ! (i + 1)))"
        using True lt h by (simp add: putPairs.simps [of tags i])
      have ih: "putPairs tags (i + 2) (allTags(tags ! i \<mapsto> tags ! (i + 1))) =
          putAll (pairs (drop (i + 2) tags)) (allTags(tags ! i \<mapsto> tags ! (i + 1)))"
        by (rule "1.IH" [OF True lt h "1.prems"(1) ev])
      have spec: "putAll (pairs (drop i tags)) allTags =
          putAll (pairs (drop (i + 2) tags)) (allTags(tags ! i \<mapsto> tags ! (i + 1)))"
        using h by (subst dr) simp
      show ?thesis
        by (simp only: step ih spec)
    qed
  qed
qed

lemma putAll_hashable:
  "list_all (\<lambda>kv. hashable (fst kv)) ps \<Longrightarrow> putAll ps m = Inr (m ++ map_of (rev ps))"
proof (induction ps arbitrary: m)
  case Nil
  show ?case by simp
next
  case (Cons kv ps)
  obtain k v where kv: "kv = (k, v)" by (cases kv)
  from Cons.prems kv have h: "hashable k" and rest: "list_all (\<lambda>kv. hashable (fst kv)) ps"
    by simp_all
  have step: "putAll (kv # ps) m = putAll ps (m(k \<mapsto> v))"
    using h kv by simp
  have ih: "putAll ps (m(k \<mapsto> v)) = Inr (m(k \<mapsto> v) ++ map_of (rev ps))"
    by (rule Cons.IH [OF rest])
  have maps: "m(k \<mapsto> v) ++ map_of (rev ps) = m ++ map_of (rev (kv # ps))"
    by (simp add: kv map_add_upd_left)
  show ?case
    by (simp only: step ih maps)
qed

lemma putAll_map_add: "putAll ps (m0 ++ m) = map_sum id ((++) m0) (putAll ps m)"
proof (induction ps arbitrary: m)
  case Nil
  show ?case by simp
next
  case (Cons kv ps)
  obtain k v where kv: "kv = (k, v)" by (cases kv)
  show ?case
  proof (cases "hashable k")
    case False
    with kv show ?thesis by simp
  next
    case True
    have l: "putAll (kv # ps) (m0 ++ m) = putAll ps (m0 ++ m(k \<mapsto> v))"
      using True kv by simp
    have r: "putAll (kv # ps) m = putAll ps (m(k \<mapsto> v))"
      using True kv by simp
    show ?thesis
      by (simp only: l r Cons.IH)
  qed
qed

lemma putAll_not_index: "putAll ps m \<noteq> Inl IndexOutOfRange \<and> putAll ps m \<noteq> Inl NilDereference"
proof (induction ps arbitrary: m)
  case Nil
  show ?case by simp
next
  case (Cons kv ps)
  obtain k v where kv: "kv = (k, v)" by (cases kv)
  show ?case
    by (cases "hashable k") (simp_all add: kv Cons.IH)
qed

text \<open>
  The tag-map iterator on any node and in any state: the pairs of the padded
  payload go into the map, and the heap is the one after the append.
\<close>

lemma tagMapIter_putAll:
  "tagMapIter x (m, h) =
     map_sum id (\<lambda>m'. (False, (m', heapAfter h x))) (putAll (pairs (padded (payload h x))) m)"
proof (cases "asTagger x")
  case None
  then show ?thesis
    by (simp add: tagMapIter_def heapAfter_def payload_def padded_def)
next
  case (Some s)
  show ?thesis
  proof (cases "odd (s_len s)")
    case True
    have pp: "putPairs (contents h s @ [VStr ''unbalanced tag'']) 0 m =
        putAll (pairs (drop 0 (contents h s @ [VStr ''unbalanced tag'']))) m"
      using True by (intro putPairs_putAll) simp_all
    obtain h' t' where ap: "append1 h s (VStr ''unbalanced tag'') = (h', t')"
      by (cases "append1 h s (VStr ''unbalanced tag'')")
    with append1_contents [of h s "VStr ''unbalanced tag''"]
    have t': "t' = contents h s @ [VStr ''unbalanced tag'']" by simp
    from True have md: "s_len s mod 2 \<noteq> 0"
      by (simp add: odd_iff_mod_2_eq_one)
    from Some True ap t' pp md show ?thesis
      by (simp add: tagMapIter_def heapAfter_def payload_def padded_def split: sum.splits)
  next
    case False
    have pp: "putPairs (contents h s) 0 m = putAll (pairs (drop 0 (contents h s))) m"
      using False by (intro putPairs_putAll) simp_all
    from False have md: "s_len s mod 2 = 0"
      by simp
    from Some False pp md show ?thesis
      by (simp add: tagMapIter_def heapAfter_def payload_def padded_def split: sum.splits)
  qed
qed

text \<open>
  A walk of the tag-map iterator that starts from a map \<open>m0 ++ m\<close> does what the
  walk from \<open>m\<close> does, with \<open>m0\<close> under its result: entries put by inner nodes stay
  over those that were there.
\<close>

lemma tagMapIter_map_add:
  "tagMapIter x (m0 ++ m, h) =
     map_sum id (\<lambda>r. (fst r, (m0 ++ fst (snd r), snd (snd r)))) (tagMapIter x (m, h))"
  by (cases "putAll (pairs (padded (payload h x))) m")
     (simp_all add: tagMapIter_putAll putAll_map_add)

lemma walkLoop_tagMapIter_map_add:
  "walkLoop tagMapIter e (m0 ++ m, h) =
     map_sum id (\<lambda>r. (fst r, (m0 ++ fst (snd r), snd (snd r)))) (walkLoop tagMapIter e (m, h))"
proof (induction e arbitrary: m h rule: chain.induct)
  case (1 err)
  show ?case
  proof (cases "err = ErrNil")
    case True
    then show ?thesis by (simp add: tagMapIter_map_add id_def)
  next
    case False
    show ?thesis
    proof (cases "tagMapIter err (m, h)")
      case (Inl p)
      with False show ?thesis
        by (simp add: walkLoop.simps [of _ err] tagMapIter_map_add id_def)
    next
      case (Inr r)
      obtain b m' h' where r: "r = (b, (m', h'))" by (cases r) auto
      show ?thesis
      proof (cases "unwrap err")
        case None
        with False Inr r show ?thesis
          by (simp add: walkLoop.simps [of _ err] tagMapIter_map_add id_def)
      next
        case (Some inner)
        with False Inr r "1.IH" [of inner m' h'] show ?thesis
          by (simp add: walkLoop.simps [of _ err] tagMapIter_map_add id_def)
      qed
    qed
  qed
qed

lemma TagMap_WithTags:
  assumes "base \<noteq> ErrNil" and "putAll (pairs (padded (contents h s))) Map.empty = Inr mw"
  shows "TagMap h (WithTags base s) =
     map_sum id (\<lambda>r. (mw ++ fst r, snd r)) (TagMap (heapAfter h (withTags base s)) base)"
proof -
  have it: "tagMapIter (withTags base s) (Map.empty, h) =
      Inr (False, (mw, heapAfter h (withTags base s)))"
    using assms(2) by (simp add: tagMapIter_putAll payload_def)
  have "walkLoop tagMapIter (withTags base s) (Map.empty, h) =
      walkLoop tagMapIter base (mw ++ Map.empty, heapAfter h (withTags base s))"
    by (simp add: walkLoop.simps [of _ "withTags base s"] it)
  also have "\<dots> = map_sum id (\<lambda>r. (fst r, (mw ++ fst (snd r), snd (snd r))))
      (walkLoop tagMapIter base (Map.empty, heapAfter h (withTags base s)))"
    by (rule walkLoop_tagMapIter_map_add)
  finally show ?thesis
    using assms(1)
    by (cases "walkLoop tagMapIter base (Map.empty, heapAfter h (withTags base s))")
       (auto simp add: TagMap_def WithTags_def walkErrorChain_def captured_def)
qed

lemma GetTagMap_NewTags:
  assumes "putAll (pairs (padded (contents h s))) Map.empty = Inr mw"
  shows "GetTagMap h (NewTags base s) =
     map_sum id (\<lambda>r. (mw ++ fst r, snd r)) (GetTagMap (heapAfter h (extended base [] s)) base)"
proof -
  have it: "tagMapIter (extended base [] s) (Map.empty, h) =
      Inr (False, (mw, heapAfter h (extended base [] s)))"
    using assms by (simp add: tagMapIter_putAll payload_def)
  have "walkLoop tagMapIter (extended base [] s) (Map.empty, h) =
      walkLoop tagMapIter base (mw ++ Map.empty, heapAfter h (extended base [] s))"
    by (simp add: walkLoop.simps [of _ "extended base [] s"] it)
  also have "\<dots> = map_sum id (\<lambda>r. (fst r, (mw ++ fst (snd r), snd (snd r))))
      (walkLoop tagMapIter base (Map.empty, heapAfter h (extended base [] s)))"
    by (rule walkLoop_tagMapIter_map_add)
  finally show ?thesis
    by (cases "walkLoop tagMapIter base (Map.empty, heapAfter h (extended base [] s))")
       (auto simp add: GetTagMap_def NewTags_def walkErrorChain_ext_def captured_def)
qed

lemma TagMap_plainError: "TagMap h (plainError d) = Inr (Map.empty, h)"
  by (simp add: TagMap_def walkErrorChain_def captured_def plainError_def
      walkLoop.simps [of _ "Foreign _"] tagMapIter_def)

lemma GetTagMap_plainError: "GetTagMap h (plainError d) = Inr (Map.empty, h)"
  by (simp add: GetTagMap_def walkErrorChain_ext_def captured_def plainError_def
      walkLoop.simps [of _ "Foreign _"] tagMapIter_def)

text \<open>
  Where every key can be hashed and no payload of odd length has spare capacity,
  \<^verbatim>\<open>TagMap\<close> and \<^verbatim>\<open>GetTagMap\<close> return the merged map of the padded payloads and
  leave the heap as it was.
\<close>

lemma map_add_twice: "(m ++ a) ++ a = m ++ (a :: 'a \<rightharpoonup> 'b)"
  by (rule ext) (simp add: map_add_def split: option.splits)

lemma foldl_map_add_init: "foldl (++) m ms = m ++ foldl (++) Map.empty ms"
  by (induction ms rule: rev_induct) simp_all

lemma tagMapSpec_ErrNil [simp]: "tagMapSpec h ErrNil = Map.empty"
  by (simp add: tagMapSpec_def)

lemma tagMapSpec_step:
  "e \<noteq> ErrNil \<Longrightarrow> tagMapSpec h e =
     nodeMap h e ++ (case unwrap e of None \<Rightarrow> Map.empty | Some inner \<Rightarrow> tagMapSpec h inner)"
  by (simp add: tagMapSpec_def chain.simps [of e] foldl_map_add_init [of "nodeMap h e"]
      split: option.splits)

lemma keysHashable_step:
  "e \<noteq> ErrNil \<Longrightarrow> keysHashable h e =
     (list_all (\<lambda>kv. hashable (fst kv)) (pairs (padded (payload h e))) \<and>
      (case unwrap e of None \<Rightarrow> True | Some inner \<Rightarrow> keysHashable h inner))"
  by (simp add: keysHashable_def chain.simps [of e] split: option.splits)

lemma noSpare_step:
  "e \<noteq> ErrNil \<Longrightarrow> noSpare e =
     ((case asTagger e of None \<Rightarrow> True | Some s \<Rightarrow> even (s_len s) \<or> s_cap s \<le> s_len s) \<and>
      (case unwrap e of None \<Rightarrow> True | Some inner \<Rightarrow> noSpare inner))"
  by (simp add: noSpare_def chain.simps [of e] split: option.splits)

lemma heapAfter_noSpare:
  "(case asTagger x of None \<Rightarrow> True | Some s \<Rightarrow> even (s_len s) \<or> s_cap s \<le> s_len s) \<Longrightarrow>
     heapAfter h x = h"
  by (auto simp add: heapAfter_def append1_def split: option.splits)

lemma tagMapIter_nodeMap:
  assumes "list_all (\<lambda>kv. hashable (fst kv)) (pairs (padded (payload h x)))"
    and "case asTagger x of None \<Rightarrow> True | Some s \<Rightarrow> even (s_len s) \<or> s_cap s \<le> s_len s"
  shows "tagMapIter x (m, h) = Inr (False, (m ++ nodeMap h x, h))"
  using assms by (simp add: tagMapIter_putAll putAll_hashable heapAfter_noSpare nodeMap_def)

lemma walkLoop_tagMapIter:
  "keysHashable h e \<Longrightarrow> noSpare e \<Longrightarrow>
     walkLoop tagMapIter e (m, h) = Inr (False, (m ++ tagMapSpec h e, h))"
proof (induction e arbitrary: m rule: chain.induct)
  case (1 err)
  show ?case
  proof (cases "err = ErrNil")
    case True
    then show ?thesis by (simp add: tagMapIter_def)
  next
    case False
    from False "1.prems" have it: "\<And>m. tagMapIter err (m, h) = Inr (False, (m ++ nodeMap h err, h))"
      by (intro tagMapIter_nodeMap) (simp_all add: keysHashable_step noSpare_step)
    show ?thesis
    proof (cases "unwrap err")
      case None
      with False show ?thesis
        by (simp add: walkLoop.simps [of _ err] it tagMapSpec_step map_add_twice)
    next
      case (Some inner)
      from False Some "1.prems" have "keysHashable h inner" and "noSpare inner"
        by (simp_all add: keysHashable_step noSpare_step)
      from "1.IH" [OF False Some this] False Some show ?thesis
        by (simp add: walkLoop.simps [of _ err] it tagMapSpec_step)
    qed
  qed
qed

lemma TagMap_spec:
  "keysHashable h e \<Longrightarrow> noSpare e \<Longrightarrow> TagMap h e = Inr (tagMapSpec h e, h)"
  by (cases "e = ErrNil")
     (simp_all add: TagMap_def walkErrorChain_def captured_def walkLoop_tagMapIter)

lemma GetTagMap_spec:
  "keysHashable h e \<Longrightarrow> noSpare e \<Longrightarrow> GetTagMap h e = Inr (tagMapSpec h e, h)"
  by (simp add: GetTagMap_def walkErrorChain_ext_def captured_def walkLoop_tagMapIter)

text \<open>
  Where payloads share an array, the append is seen by the nodes further in. The
  outer payload is \<^verbatim>\<open>a[:1]\<close> and the inner payload is \<^verbatim>\<open>a\<close>, for the array
  \<^verbatim>\<open>a = ["k1", "v1"]\<close>: the append for the outer node writes the sentinel over
  \<^verbatim>\<open>"v1"\<close>, and the inner node then holds the sentinel under \<^verbatim>\<open>"k1"\<close>.
\<close>

lemma shared_array_example:
  "tagAt (TagMap (store emptyHeap 0 [VStr ''k1'', VStr ''v1''])
      (WithTags (WithTags (plainError ''root'') (whole 0 2)) (upto 0 1 2))) (VStr ''k1'') =
     Inr (Some (VStr ''unbalanced tag'')) \<and>
   tagMapSpec (store emptyHeap 0 [VStr ''k1'', VStr ''v1''])
      (WithTags (WithTags (plainError ''root'') (whole 0 2)) (upto 0 1 2)) (VStr ''k1'') =
     Some (VStr ''v1'')"
  by (simp add: TagMap_def walkErrorChain_def captured_def WithTags_def plainError_def
      walkLoop.simps [of _ "withTags _ _"] walkLoop.simps [of _ "Foreign _"]
      tagMapIter_putAll payload_def padded_def heapAfter_def append1_def
      contents_def store_def upto_def whole_def arrayOf_def tagAt_def
      tagMapSpec_step nodeMap_def eval_nat_numeral)

lemma traced_tagsIter:
  "traced (tagsIter h) x st = Inr (False, (fst st @ payload h x, snd st @ [x]))"
  by (simp add: traced_def tagsIter_payload)

lemma foldl_traced_payload:
  "foldl (\<lambda>st x. (fst st @ payload h x, snd st @ [x])) (acc, tr) xs =
     (acc @ concat (map (payload h) xs), tr @ xs)"
  by (induction xs arbitrary: acc tr) simp_all

lemma walkLoop_traced_tagsIter:
  "walkLoop (traced (tagsIter h)) e (acc, tr) =
     Inr (False, (acc @ concat (map (payload h) (chain e)) @ payload h (lastCall e),
                  tr @ chain e @ [lastCall e]))"
proof -
  have "walkLoop (traced (tagsIter h)) e (acc, tr) =
      Inr (False, foldl (\<lambda>st x. (\<lambda>x st. (fst st @ payload h x, snd st @ [x])) x st) (acc, tr)
        (chain e @ [lastCall e]))"
    by (rule walkLoop_never_stop) (simp add: traced_tagsIter)
  then show ?thesis
    by (simp add: foldl_traced_payload)
qed

lemma s_len_of_contents: "contents h s = xs \<Longrightarrow> s_len s = length xs"
  using length_contents [of h s] by simp

lemma Tags_plainError: "Tags h (plainError d) = Inr []"
  by (simp add: Tags_spec plainError_def chain.simps [of "Foreign _"] lastCall.simps [of "Foreign _"]
      payload_def)

lemma TagMap_WithTags_pair:
  assumes "base \<noteq> ErrNil" and "contents h s = [k, v]" and "hashable k"
  shows "TagMap h (WithTags base s) =
     map_sum id (\<lambda>r. ([k \<mapsto> v] ++ fst r, snd r)) (TagMap h base)"
proof -
  have "s_len s = 2"
    using s_len_of_contents [OF assms(2)] by simp
  then have ha: "heapAfter h (withTags base s) = h"
    by (simp add: heapAfter_def)
  have pa: "putAll (pairs (padded (contents h s))) Map.empty = Inr [k \<mapsto> v]"
    using assms(3) by (simp add: assms(2) padded_def)
  show ?thesis
    using TagMap_WithTags [OF assms(1) pa] by (simp only: ha)
qed

lemma TagMap_WithTags_single:
  assumes "base \<noteq> ErrNil" and "contents h s = [k]" and "hashable k"
  shows "TagMap h (WithTags base s) =
     map_sum id (\<lambda>r. ([k \<mapsto> VStr ''unbalanced tag''] ++ fst r, snd r))
       (TagMap (fst (append1 h s (VStr ''unbalanced tag''))) base)"
proof -
  have "s_len s = 1"
    using s_len_of_contents [OF assms(2)] by simp
  then have ha: "heapAfter h (withTags base s) = fst (append1 h s (VStr ''unbalanced tag''))"
    by (simp add: heapAfter_def)
  have pa: "putAll (pairs (padded (contents h s))) Map.empty =
      Inr [k \<mapsto> VStr ''unbalanced tag'']"
    using assms(3) by (simp add: assms(2) padded_def)
  show ?thesis
    using TagMap_WithTags [OF assms(1) pa] by (simp only: ha)
qed

lemma WithTags_not_nil: "base \<noteq> ErrNil \<Longrightarrow> WithTags base s \<noteq> ErrNil"
  by (simp add: WithTags_def)

lemma plainError_not_nil: "plainError d \<noteq> ErrNil"
  by (simp add: plainError_def)

lemma GetTagMap_NewTags_single:
  assumes "contents h s = [k]" and "hashable k"
  shows "GetTagMap h (NewTags base s) =
     map_sum id (\<lambda>r. ([k \<mapsto> VStr ''unbalanced tag''] ++ fst r, snd r))
       (GetTagMap (fst (append1 h s (VStr ''unbalanced tag''))) base)"
proof -
  have "s_len s = 1"
    using s_len_of_contents [OF assms(1)] by simp
  then have ha: "heapAfter h (extended base [] s) = fst (append1 h s (VStr ''unbalanced tag''))"
    by (simp add: heapAfter_def)
  have pa: "putAll (pairs (padded (contents h s))) Map.empty =
      Inr [k \<mapsto> VStr ''unbalanced tag'']"
    using assms(2) by (simp add: assms(1) padded_def)
  show ?thesis
    using GetTagMap_NewTags [OF pa] by (simp only: ha)
qed

lemma append1_whole: "fst (append1 h (whole a n) x) = h"
  by (rule append1_no_spare) (simp add: whole_def)

lemma TagMap_WithTags_fault:
  assumes "base \<noteq> ErrNil" and "putAll (pairs (padded (contents h s))) Map.empty = Inl p"
  shows "TagMap h (WithTags base s) = Inl p"
  using assms
  by (simp add: TagMap_def walkErrorChain_def captured_def WithTags_def
      walkLoop.simps [of _ "withTags _ _"] tagMapIter_putAll payload_def)

lemma tagMapIter_odd:
  assumes "asTagger x = Some s" and "odd (s_len s)"
  shows "tagMapIter x (m, h) =
     map_sum id (\<lambda>m'. (False, (m', fst (append1 h s (VStr ''unbalanced tag'')))))
       (putAll (pairs (contents h s @ [VStr ''unbalanced tag''])) m)"
  using assms by (simp add: tagMapIter_putAll heapAfter_def payload_def padded_def)

lemma tagMapIter_not_index:
  "tagMapIter x (m, h) \<noteq> Inl IndexOutOfRange \<and> tagMapIter x (m, h) \<noteq> Inl NilDereference"
  using putAll_not_index [of "pairs (padded (payload h x))" m]
  by (cases "putAll (pairs (padded (payload h x))) m") (simp_all add: tagMapIter_putAll)

section \<open>Lemmas on the extraction functions\<close>

lemma traced_first:
  assumes f: "\<And>x. f x z = Inr (valueAt probe z x \<noteq> z, valueAt probe z x)"
    and nil: "probe ErrNil = None"
  shows "walkLoop (traced f) e (z, tr) =
     Inr (firstSet z (values_of probe e) \<noteq> z,
          (firstSet z (values_of probe e),
           tr @ invocations (\<lambda>x. valueAt probe z x \<noteq> z) (chain e) (lastCall e)))"
proof (induction e arbitrary: tr rule: chain.induct)
  case (1 err)
  have t: "\<And>x tr. traced f x (z, tr) = Inr (valueAt probe z x \<noteq> z, (valueAt probe z x, tr @ [x]))"
    by (simp add: traced_def f)
  show ?case
  proof (cases "err = ErrNil")
    case True
    then show ?thesis by (simp add: t nil valueAt_def)
  next
    case False
    show ?thesis
    proof (cases "unwrap err")
      case None
      with False show ?thesis
        by (simp add: values_of_step walkLoop.simps [of _ err] t chain.simps [of err]
            lastCall.simps [of err] valueAt_def split: option.splits)
    next
      case (Some inner)
      with False "1.IH" [of inner] show ?thesis
        by (simp add: values_of_step walkLoop.simps [of _ err] t chain.simps [of err]
            lastCall.simps [of err] valueAt_def split: option.splits)
    qed
  qed
qed

lemma errorCodeIter_valueAt:
  "errorCodeIter x 0 = Inr (valueAt asErrorCoder 0 x \<noteq> 0, valueAt asErrorCoder 0 x)"
  by (simp add: errorCodeIter_def valueAt_def Let_def)

lemma httpStatusIter_valueAt:
  "httpStatusIter x 0 = Inr (valueAt asHttpStatuser 0 x \<noteq> 0, valueAt asHttpStatuser 0 x)"
  by (simp add: httpStatusIter_def valueAt_def Let_def)

lemma humanMessageIter_valueAt:
  "humanMessageIter x [] = Inr (valueAt asHumanMessage [] x \<noteq> [], valueAt asHumanMessage [] x)"
  by (simp add: humanMessageIter_def valueAt_def Let_def)

lemma ErrorCode_WithErrorCode:
  "e \<noteq> ErrNil \<Longrightarrow> ErrorCode (WithErrorCode e c) = (if c \<noteq> 0 then Inr c else ErrorCode e)"
  by (simp add: ErrorCode_first values_of_step [of "withErrorCode e c"] WithErrorCode_def)

lemma walkLoop_isNamedIter:
  "walkLoop (isNamedIter name) e () = Inr (list_ex (\<lambda>x. IsNamed x name) (chain e), ())"
proof (induction e rule: chain.induct)
  case (1 err)
  show ?case
  proof (cases "err = ErrNil")
    case True
    then show ?thesis by (simp add: isNamedIter_def IsNamed_def)
  next
    case False
    show ?thesis
    proof (cases "unwrap err")
      case None
      with False show ?thesis
        by (simp add: walkLoop.simps [of _ err] chain.simps [of err] isNamedIter_def)
    next
      case (Some inner)
      with False "1.IH" [of inner] show ?thesis
        by (simp add: walkLoop.simps [of _ err] chain.simps [of err] isNamedIter_def)
    qed
  qed
qed

lemma errors_Cause_extended: "errors_Cause (extended e n kvs) = errors_Cause e"
  by (simp add: errors_Cause.simps [of "extended e n kvs"])

lemma errors_Cause_Foreign: "errors_Cause (Foreign f) = Foreign f"
  by (simp add: errors_Cause.simps [of "Foreign f"])

lemma IsAnyCauseNamed_chain:
  "IsAnyCauseNamed e name = Inr (list_ex (\<lambda>x. IsNamed x name) (chain e))"
  by (simp add: IsAnyCauseNamed_def walkErrorChain_ext_def walkLoop_isNamedIter)

section \<open>Lemmas on rendering\<close>

lemma digitValue_digit: "digitValue (digit n) = n mod 10"
proof -
  have small: "\<And>k::nat. k < 10 \<Longrightarrow>
      k = 0 \<or> k = 1 \<or> k = 2 \<or> k = 3 \<or> k = 4 \<or> k = 5 \<or> k = 6 \<or> k = 7 \<or> k = 8 \<or> k = 9"
    by arith
  have "n mod 10 < 10" by simp
  from small [OF this] show ?thesis
    by (elim disjE) (simp_all add: digit_def digitValue_def)
qed

lemma readDigits_snoc: "readDigits (cs @ [ch]) = 10 * readDigits cs + digitValue ch"
  by (simp add: readDigits_def)

lemma readDigits_digits: "readDigits (digits n) = n"
proof (induction n rule: digits.induct)
  case (1 n)
  show ?case
  proof (cases "n < 10")
    case True
    then show ?thesis
      by (simp add: digits.simps [of n] readDigits_def digitValue_digit)
  next
    case False
    with "1.IH" show ?thesis
      by (simp add: digits.simps [of n] readDigits_snoc digitValue_digit)
  qed
qed

section \<open>Claims\<close>

subsection \<open>Nil input\<close>

text \<open>
  C9. Every extraction function of both editions, called with a nil error, raises
  no fault and returns the zero value of its type: the empty string, 0, false, the
  empty list or the empty map; the heap is as it was.
\<close>

theorem extractors_total_on_nil:
  "HumanMessage ErrNil = Inr [] \<and> ErrorCode ErrNil = Inr 0 \<and> HttpStatus ErrNil = Inr 0 \<and>
   Tags h ErrNil = Inr [] \<and> TagMap h ErrNil = Inr (Map.empty, h) \<and>
   GetTags h ErrNil = Inr [] \<and> GetTagMap h ErrNil = Inr (Map.empty, h) \<and>
   IsNamed ErrNil name = False \<and> IsAnyCauseNamed ErrNil name = Inr False \<and>
   IsRootCauseNamed ErrNil name = False"
proof -
  have sing: "HumanMessage ErrNil = Inr [] \<and> ErrorCode ErrNil = Inr 0 \<and> HttpStatus ErrNil = Inr 0"
    by (simp add: HumanMessage_def ErrorCode_def HttpStatus_def)
  have tags: "Tags h ErrNil = Inr [] \<and> TagMap h ErrNil = Inr (Map.empty, h)"
    by (simp add: Tags_def TagMap_def walkErrorChain_def captured_def)
  have gtags: "GetTags h ErrNil = Inr []"
    by (simp add: GetTags_def walkErrorChain_ext_def captured_def tagsIter_def)
  have gmap: "GetTagMap h ErrNil = Inr (Map.empty, h)"
    by (simp add: GetTagMap_def walkErrorChain_ext_def captured_def tagMapIter_def)
  have named: "IsNamed ErrNil name = False"
    by (simp add: IsNamed_def)
  have anyc: "IsAnyCauseNamed ErrNil name = Inr False"
    by (simp add: IsAnyCauseNamed_def walkErrorChain_ext_def isNamedIter_def IsNamed_def)
  have rootc: "IsRootCauseNamed ErrNil name = False"
    by (simp add: IsRootCauseNamed_def errors_Cause.simps IsNamed_def)
  from sing tags gtags gmap named anyc rootc show ?thesis by simp
qed

text \<open>
  C4, as claimed: every constructor returns nil when called with nil. The two
  constructors of the combined edition do not: they allocate a wrapper whose inner
  error is nil.
\<close>

theorem NewNamed_nil_not_nil:
  "NewNamed ErrNil ''N'' nilSlice \<noteq> ErrNil \<and> NewTags ErrNil nilSlice \<noteq> ErrNil"
  by (simp add: NewNamed_def NewTags_def)

text \<open>
  C4, amended. The four single-capability constructors return nil unchanged when
  called with nil. \<^verbatim>\<open>NewNamed\<close> and \<^verbatim>\<open>NewTags\<close> have no test for nil: called with
  nil they return a combined wrapper around nil, which is not nil.
\<close>

theorem constructors_on_nil:
  "WithHumanMessage ErrNil message = ErrNil \<and> WithErrorCode ErrNil c = ErrNil \<and>
   WithHttpStatus ErrNil c = ErrNil \<and> WithTags ErrNil kvs = ErrNil \<and>
   NewNamed ErrNil name kvs = extended ErrNil name kvs \<and>
   NewTags ErrNil kvs = extended ErrNil [] kvs \<and>
   NewNamed ErrNil name kvs \<noteq> ErrNil \<and> NewTags ErrNil kvs \<noteq> ErrNil"
  by (simp add: WithHumanMessage_def WithErrorCode_def WithHttpStatus_def WithTags_def
      NewNamed_def NewTags_def)

subsection \<open>Singular extraction\<close>

text \<open>
  C1, as claimed: each singular extraction function returns the value of the first
  node, in chain order, that implements the capability. A code wrapper whose code
  is 0 around a code wrapper whose code is 5: the first node that implements the
  capability holds 0, and \<^verbatim>\<open>ErrorCode\<close> returns 5.
\<close>

theorem first_match_counterexample:
  "ErrorCode (WithErrorCode (WithErrorCode (plainError ''root'') 5) 0) = Inr 5 \<and>
   firstMatch 0 (values_of asErrorCoder (WithErrorCode (WithErrorCode (plainError ''root'') 5) 0)) = 0 \<and>
   ErrorCode (WithErrorCode (WithErrorCode (plainError ''root'') 5) 0) \<noteq>
     Inr (firstMatch 0 (values_of asErrorCoder (WithErrorCode (WithErrorCode (plainError ''root'') 5) 0)))"
  by (simp add: ErrorCode_first values_of_step WithErrorCode_def plainError_def firstMatch_def)

text \<open>
  C1, amended. Each singular extraction function returns the first value, in chain
  order from the outermost node, that is not the zero value among the nodes that
  implement the capability; a node whose value is the zero value does not stop the
  walk. When no node holds a value other than the zero value, or the chain is nil,
  the result is the zero value. No fault is raised. The iterator is invoked on the
  nodes in chain order up to the first node that holds such a value, and on no node
  after it.
\<close>

theorem singular_extraction_first_nonzero:
  "ErrorCode e = Inr (firstSet 0 (values_of asErrorCoder e)) \<and>
   HttpStatus e = Inr (firstSet 0 (values_of asHttpStatuser e)) \<and>
   HumanMessage e = Inr (firstSet [] (values_of asHumanMessage e)) \<and>
   walkErrorChain (traced errorCodeIter) e (0, []) =
     (if e = ErrNil then Inr (False, (0, []))
      else Inr (firstSet 0 (values_of asErrorCoder e) \<noteq> 0,
          (firstSet 0 (values_of asErrorCoder e),
           invocations (\<lambda>x. valueAt asErrorCoder 0 x \<noteq> 0) (chain e) (lastCall e)))) \<and>
   walkErrorChain (traced httpStatusIter) e (0, []) =
     (if e = ErrNil then Inr (False, (0, []))
      else Inr (firstSet 0 (values_of asHttpStatuser e) \<noteq> 0,
          (firstSet 0 (values_of asHttpStatuser e),
           invocations (\<lambda>x. valueAt asHttpStatuser 0 x \<noteq> 0) (chain e) (lastCall e)))) \<and>
   walkErrorChain (traced humanMessageIter) e ([], []) =
     (if e = ErrNil then Inr (False, ([], []))
      else Inr (firstSet [] (values_of asHumanMessage e) \<noteq> [],
          (firstSet [] (values_of asHumanMessage e),
           invocations (\<lambda>x. valueAt asHumanMessage [] x \<noteq> []) (chain e) (lastCall e))))"
proof -
  have c: "walkLoop (traced errorCodeIter) e (0, []) =
      Inr (firstSet 0 (values_of asErrorCoder e) \<noteq> 0,
          (firstSet 0 (values_of asErrorCoder e),
           [] @ invocations (\<lambda>x. valueAt asErrorCoder 0 x \<noteq> 0) (chain e) (lastCall e)))"
    by (rule traced_first) (simp_all add: errorCodeIter_valueAt)
  have h: "walkLoop (traced httpStatusIter) e (0, []) =
      Inr (firstSet 0 (values_of asHttpStatuser e) \<noteq> 0,
          (firstSet 0 (values_of asHttpStatuser e),
           [] @ invocations (\<lambda>x. valueAt asHttpStatuser 0 x \<noteq> 0) (chain e) (lastCall e)))"
    by (rule traced_first) (simp_all add: httpStatusIter_valueAt)
  have m: "walkLoop (traced humanMessageIter) e ([], []) =
      Inr (firstSet [] (values_of asHumanMessage e) \<noteq> [],
          (firstSet [] (values_of asHumanMessage e),
           [] @ invocations (\<lambda>x. valueAt asHumanMessage [] x \<noteq> []) (chain e) (lastCall e)))"
    by (rule traced_first) (simp_all add: humanMessageIter_valueAt)
  show ?thesis
    using c h m ErrorCode_first [of e] HttpStatus_first [of e] HumanMessage_first [of e]
    by (simp add: walkErrorChain_def)
qed

text \<open>
  C5, as claimed: \<^verbatim>\<open>ErrorCode(WithErrorCode(e, c)) == c\<close> for every non-nil \<open>e\<close>
  and every integer \<open>c\<close>. It fails for \<open>c = 0\<close> over an error that holds the
  code 7.
\<close>

theorem ErrorCode_roundtrip_counterexample:
  "WithErrorCode (plainError ''x'') 7 \<noteq> ErrNil \<and>
   ErrorCode (WithErrorCode (WithErrorCode (plainError ''x'') 7) 0) \<noteq> Inr 0"
  by (simp add: plainError_def WithErrorCode_def ErrorCode_first values_of_step)

text \<open>
  C5, amended. For every non-nil error \<open>e\<close>, \<^verbatim>\<open>ErrorCode(WithErrorCode(e, c))\<close> is
  \<open>c\<close> when \<open>c\<close> is not 0 and is \<^verbatim>\<open>ErrorCode(e)\<close> when \<open>c\<close> is 0; and
  \<^verbatim>\<open>WithErrorCode(nil, c)\<close> is nil.
\<close>

theorem ErrorCode_roundtrip:
  "(e \<noteq> ErrNil \<longrightarrow> ErrorCode (WithErrorCode e c) = (if c \<noteq> 0 then Inr c else ErrorCode e)) \<and>
   WithErrorCode ErrNil c = ErrNil"
  by (simp add: ErrorCode_WithErrorCode) (simp add: WithErrorCode_def)

theorem ErrorCode_roundtrip_witness:
  "plainError ''x'' \<noteq> ErrNil \<and> ErrorCode (WithErrorCode (plainError ''x'') 7) = Inr 7 \<and>
   ErrorCode (WithErrorCode (WithErrorCode (plainError ''x'') 7) 0) = Inr 7 \<and>
   ErrorCode (WithErrorCode (plainError ''x'') 0) = Inr 0"
  using ErrorCode_roundtrip [of "plainError ''x''" 7] ErrorCode_roundtrip [of "WithErrorCode (plainError ''x'') 7" 0]
    ErrorCode_roundtrip [of "plainError ''x''" 0]
  by (simp add: plainError_def WithErrorCode_def ErrorCode_first values_of_step)

subsection \<open>Tags\<close>

text \<open>
  C2, as claimed: over the chain \<^verbatim>\<open>withTags(withTags(base,"k","outer"),"k","inner")\<close>,
  with \<^verbatim>\<open>"inner"\<close> on the inner wrapper, the merged map holds \<^verbatim>\<open>"inner"\<close> under
  \<^verbatim>\<open>"k"\<close>. Here the inner wrapper holds \<^verbatim>\<open>"inner"\<close>, the outer wrapper holds
  \<^verbatim>\<open>"outer"\<close>, and the base is a tag wrapper that holds \<^verbatim>\<open>"deep"\<close> under \<^verbatim>\<open>"k"\<close>:
  the merged map holds \<^verbatim>\<open>"deep"\<close>, the value of the node furthest in. Over a nil base
  both constructors return nil, and the merged map is empty.
\<close>

theorem tag_precedence_counterexample:
  "contents (store (store (store emptyHeap 0 [VStr ''k'', VStr ''deep''])
        2 [VStr ''k'', VStr ''inner'']) 3 [VStr ''k'', VStr ''outer'']) (whole 0 2) =
     [VStr ''k'', VStr ''deep''] \<and>
   contents (store (store (store emptyHeap 0 [VStr ''k'', VStr ''deep''])
        2 [VStr ''k'', VStr ''inner'']) 3 [VStr ''k'', VStr ''outer'']) (whole 2 2) =
     [VStr ''k'', VStr ''inner''] \<and>
   contents (store (store (store emptyHeap 0 [VStr ''k'', VStr ''deep''])
        2 [VStr ''k'', VStr ''inner'']) 3 [VStr ''k'', VStr ''outer'']) (whole 3 2) =
     [VStr ''k'', VStr ''outer''] \<and>
   tagAt (TagMap (store (store (store emptyHeap 0 [VStr ''k'', VStr ''deep''])
        2 [VStr ''k'', VStr ''inner'']) 3 [VStr ''k'', VStr ''outer''])
      (WithTags (WithTags (WithTags (plainError ''root'') (whole 0 2)) (whole 2 2)) (whole 3 2)))
      (VStr ''k'') = Inr (Some (VStr ''deep'')) \<and>
   tagAt (TagMap (store (store (store emptyHeap 0 [VStr ''k'', VStr ''deep''])
        2 [VStr ''k'', VStr ''inner'']) 3 [VStr ''k'', VStr ''outer''])
      (WithTags (WithTags (WithTags (plainError ''root'') (whole 0 2)) (whole 2 2)) (whole 3 2)))
      (VStr ''k'') \<noteq> Inr (Some (VStr ''inner'')) \<and>
   tagAt (TagMap (store (store (store emptyHeap 0 [VStr ''k'', VStr ''deep''])
        2 [VStr ''k'', VStr ''inner'']) 3 [VStr ''k'', VStr ''outer''])
      (WithTags (WithTags ErrNil (whole 2 2)) (whole 3 2))) (VStr ''k'') = Inr None"
proof -
  let ?h = "store (store (store emptyHeap 0 [VStr ''k'', VStr ''deep''])
        2 [VStr ''k'', VStr ''inner'']) 3 [VStr ''k'', VStr ''outer'']"
  let ?b = "WithTags (plainError ''root'') (whole 0 2)"
  have cb: "contents ?h (whole 0 2) = [VStr ''k'', VStr ''deep'']"
    by (simp add: contents_def store_def whole_def arrayOf_def eval_nat_numeral)
  have ci: "contents ?h (whole 2 2) = [VStr ''k'', VStr ''inner'']"
    by (simp add: contents_def store_def whole_def arrayOf_def eval_nat_numeral)
  have co: "contents ?h (whole 3 2) = [VStr ''k'', VStr ''outer'']"
    by (simp add: contents_def store_def whole_def arrayOf_def eval_nat_numeral)
  have b: "?b \<noteq> ErrNil" and m: "WithTags ?b (whole 2 2) \<noteq> ErrNil"
    by (simp_all add: WithTags_not_nil plainError_not_nil)
  have tb: "TagMap ?h ?b = Inr ([VStr ''k'' \<mapsto> VStr ''deep''], ?h)"
    by (simp add: TagMap_WithTags_pair [OF plainError_not_nil cb] TagMap_plainError)
  have tm: "TagMap ?h (WithTags ?b (whole 2 2)) = Inr ([VStr ''k'' \<mapsto> VStr ''deep''], ?h)"
    by (simp add: TagMap_WithTags_pair [OF b ci] tb)
  have to: "TagMap ?h (WithTags (WithTags ?b (whole 2 2)) (whole 3 2)) =
      Inr ([VStr ''k'' \<mapsto> VStr ''deep''], ?h)"
    by (simp add: TagMap_WithTags_pair [OF m co] tm)
  have tn: "TagMap ?h (WithTags (WithTags ErrNil (whole 2 2)) (whole 3 2)) = Inr (Map.empty, ?h)"
    by (simp add: WithTags_def TagMap_def walkErrorChain_def captured_def)
  show ?thesis
    by (simp add: to tn cb ci co tagAt_def)
qed

text \<open>
  C2, amended. Nodes visited later, which are further in, overwrite the values of
  nodes visited earlier on a key of both. When the inner wrapper holds \<open>vinner\<close>
  and the outer wrapper holds \<open>vouter\<close> under the key \<open>k\<close>, over a base that is not
  nil, \<^verbatim>\<open>TagMap\<close> of the chain is \<^verbatim>\<open>TagMap\<close> of the base with \<open>k\<close> set to \<open>vinner\<close>
  where the base has no value for \<open>k\<close>: \<open>vinner\<close> wins over \<open>vouter\<close>, a value of
  the base for \<open>k\<close> wins over both, and a fault of \<^verbatim>\<open>TagMap\<close> of the base is the
  fault of the chain. \<^verbatim>\<open>Tags\<close> keeps every entry, in order from the outermost
  node: \<open>k, vouter, k, vinner\<close>, then the tags of the base.
\<close>

theorem tag_precedence:
  assumes "base \<noteq> ErrNil"
    and "contents h si = [VStr k, vinner]" and "contents h so = [VStr k, vouter]"
  shows "TagMap h (WithTags (WithTags base si) so) =
           map_sum id (\<lambda>r. ([VStr k \<mapsto> vinner] ++ fst r, snd r)) (TagMap h base) \<and>
         Tags h (WithTags (WithTags base si) so) =
           map_sum id (\<lambda>tb. [VStr k, vouter, VStr k, vinner] @ tb) (Tags h base)"
proof -
  let ?mid = "WithTags base si"
  from assms(1) have mid: "?mid \<noteq> ErrNil"
    by (rule WithTags_not_nil)
  have outer: "TagMap h (WithTags ?mid so) =
      map_sum id (\<lambda>r. ([VStr k \<mapsto> vouter] ++ fst r, snd r)) (TagMap h ?mid)"
    by (rule TagMap_WithTags_pair [OF mid assms(3)]) simp
  have inner: "TagMap h ?mid =
      map_sum id (\<lambda>r. ([VStr k \<mapsto> vinner] ++ fst r, snd r)) (TagMap h base)"
    by (rule TagMap_WithTags_pair [OF assms(1,2)]) simp
  have over: "\<And>mb. [VStr k \<mapsto> vouter] ++ ([VStr k \<mapsto> vinner] ++ mb) = [VStr k \<mapsto> vinner] ++ mb"
    by (rule ext) (simp add: map_add_def split: option.splits)
  have m: "TagMap h (WithTags ?mid so) =
      map_sum id (\<lambda>r. ([VStr k \<mapsto> vinner] ++ fst r, snd r)) (TagMap h base)"
    by (cases "TagMap h base") (simp_all add: outer inner over)
  from assms have t: "Tags h (WithTags ?mid so) =
      map_sum id (\<lambda>tb. [VStr k, vouter, VStr k, vinner] @ tb) (Tags h base)"
    by (simp add: Tags_spec WithTags_def chain.simps [of "withTags _ _"]
        lastCall.simps [of "withTags _ _"] payload_def)
  from m t show ?thesis by simp
qed

theorem tag_precedence_witness:
  "plainError ''base'' \<noteq> ErrNil \<and>
   contents (store (store emptyHeap 2 [VStr ''k'', VStr ''inner'']) 3 [VStr ''k'', VStr ''outer''])
      (whole 2 2) = [VStr ''k'', VStr ''inner''] \<and>
   contents (store (store emptyHeap 2 [VStr ''k'', VStr ''inner'']) 3 [VStr ''k'', VStr ''outer''])
      (whole 3 2) = [VStr ''k'', VStr ''outer''] \<and>
   TagMap (store (store emptyHeap 2 [VStr ''k'', VStr ''inner'']) 3 [VStr ''k'', VStr ''outer''])
      (WithTags (WithTags (plainError ''base'') (whole 2 2)) (whole 3 2)) =
     Inr ([VStr ''k'' \<mapsto> VStr ''inner''],
          store (store emptyHeap 2 [VStr ''k'', VStr ''inner'']) 3 [VStr ''k'', VStr ''outer'']) \<and>
   Tags (store (store emptyHeap 2 [VStr ''k'', VStr ''inner'']) 3 [VStr ''k'', VStr ''outer''])
      (WithTags (WithTags (plainError ''base'') (whole 2 2)) (whole 3 2)) =
     Inr [VStr ''k'', VStr ''outer'', VStr ''k'', VStr ''inner'']"
proof -
  let ?h = "store (store emptyHeap 2 [VStr ''k'', VStr ''inner'']) 3 [VStr ''k'', VStr ''outer'']"
  have b: "plainError ''base'' \<noteq> ErrNil" by (simp add: plainError_def)
  have ci: "contents ?h (whole 2 2) = [VStr ''k'', VStr ''inner'']"
    by (simp add: contents_def store_def whole_def arrayOf_def eval_nat_numeral)
  have co: "contents ?h (whole 3 2) = [VStr ''k'', VStr ''outer'']"
    by (simp add: contents_def store_def whole_def arrayOf_def eval_nat_numeral)
  show ?thesis
    using tag_precedence [OF b ci co] b ci co
    by (simp add: TagMap_plainError Tags_plainError)
qed

text \<open>
  C8, as claimed: for every tag-capable node whose payload has an odd number of
  entries the sentinel is appended before pairing, \<^verbatim>\<open>TagMap(WithTags(base, "k"))\<close>
  maps \<^verbatim>\<open>"k"\<close> to the sentinel, and no fault is raised. A payload of one entry that
  is a slice has an odd number of entries, and the map assignment panics on it. Over
  a base that holds \<^verbatim>\<open>"v"\<close> under \<^verbatim>\<open>"k"\<close>, \<^verbatim>\<open>TagMap(WithTags(base, "k"))\<close> maps
  \<^verbatim>\<open>"k"\<close> to \<^verbatim>\<open>"v"\<close>. Over a nil base \<^verbatim>\<open>WithTags\<close> returns nil, and the merged
  map is empty.
\<close>

theorem unbalanced_tags_counterexample:
  "contents (store emptyHeap 0 [VSlice []]) (whole 0 1) = [VSlice []] \<and>
   TagMap (store emptyHeap 0 [VSlice []]) (WithTags (plainError ''base'') (whole 0 1)) =
     Inl UnhashableKey \<and>
   contents (store (store emptyHeap 0 [VStr ''k'', VStr ''v'']) 2 [VStr ''k'']) (whole 2 1) =
     [VStr ''k''] \<and>
   tagAt (TagMap (store (store emptyHeap 0 [VStr ''k'', VStr ''v'']) 2 [VStr ''k''])
      (WithTags (WithTags (plainError ''root'') (whole 0 2)) (whole 2 1))) (VStr ''k'') =
     Inr (Some (VStr ''v'')) \<and>
   tagAt (TagMap (store (store emptyHeap 0 [VStr ''k'', VStr ''v'']) 2 [VStr ''k''])
      (WithTags (WithTags (plainError ''root'') (whole 0 2)) (whole 2 1))) (VStr ''k'') \<noteq>
     Inr (Some (VStr ''unbalanced tag'')) \<and>
   tagAt (TagMap (store (store emptyHeap 0 [VStr ''k'', VStr ''v'']) 2 [VStr ''k''])
      (WithTags ErrNil (whole 2 1))) (VStr ''k'') = Inr None"
proof -
  let ?g = "store emptyHeap 0 [VSlice []]"
  let ?h = "store (store emptyHeap 0 [VStr ''k'', VStr ''v'']) 2 [VStr ''k'']"
  let ?b = "WithTags (plainError ''root'') (whole 0 2)"
  have cg: "contents ?g (whole 0 1) = [VSlice []]"
    by (simp add: contents_def store_def whole_def arrayOf_def)
  have pg: "putAll (pairs (padded (contents ?g (whole 0 1)))) Map.empty = Inl UnhashableKey"
    unfolding cg by (simp add: padded_def)
  have fg: "TagMap ?g (WithTags (plainError ''base'') (whole 0 1)) = Inl UnhashableKey"
    by (rule TagMap_WithTags_fault [OF plainError_not_nil pg])
  have cb: "contents ?h (whole 0 2) = [VStr ''k'', VStr ''v'']"
    by (simp add: contents_def store_def whole_def arrayOf_def eval_nat_numeral)
  have ck: "contents ?h (whole 2 1) = [VStr ''k'']"
    by (simp add: contents_def store_def whole_def arrayOf_def)
  have b: "?b \<noteq> ErrNil"
    by (simp add: WithTags_not_nil plainError_not_nil)
  have tb: "TagMap ?h ?b = Inr ([VStr ''k'' \<mapsto> VStr ''v''], ?h)"
    by (simp add: TagMap_WithTags_pair [OF plainError_not_nil cb] TagMap_plainError)
  have tk: "TagMap ?h (WithTags ?b (whole 2 1)) = Inr ([VStr ''k'' \<mapsto> VStr ''v''], ?h)"
    using TagMap_WithTags_single [OF b ck] by (simp add: append1_whole tb)
  have tn: "TagMap ?h (WithTags ErrNil (whole 2 1)) = Inr (Map.empty, ?h)"
    by (simp add: WithTags_def TagMap_def walkErrorChain_def captured_def)
  show ?thesis
    using cg fg ck tk tn by (simp add: tagAt_def)
qed

text \<open>
  C8, amended. For every tag-capable node whose payload has an odd number of
  entries, the iterator appends the string \<^verbatim>\<open>"unbalanced tag"\<close> to the payload, in
  the backing array when the payload has spare capacity, and then puts the pairs of
  the payload so extended into the map in their order; no index leaves the payload,
  and the one fault there can be is the panic of a map assignment on a key that
  cannot be hashed. Over a base that is not nil, \<^verbatim>\<open>TagMap(WithTags(base, "k"))\<close> is
  \<^verbatim>\<open>TagMap\<close> of the base, run on the heap after the append, with \<^verbatim>\<open>"k"\<close> set to the
  sentinel where the base has no value for \<^verbatim>\<open>"k"\<close>. Over a base without tags
  \<^verbatim>\<open>TagMap(WithTags(base, "k"))\<close> and \<^verbatim>\<open>GetTagMap(NewTags(base, "k"))\<close> are the map from
  \<^verbatim>\<open>"k"\<close> to \<^verbatim>\<open>"unbalanced tag"\<close>, with no fault.
\<close>

theorem unbalanced_tags:
  "(asTagger x = Some s \<and> odd (s_len s) \<longrightarrow>
      tagMapIter x (m, h) =
        map_sum id (\<lambda>m'. (False, (m', fst (append1 h s (VStr ''unbalanced tag'')))))
          (putAll (pairs (contents h s @ [VStr ''unbalanced tag''])) m)) \<and>
   tagMapIter x (m, h) \<noteq> Inl IndexOutOfRange \<and>
   tagMapIter x (m, h) \<noteq> Inl NilDereference \<and>
   (base \<noteq> ErrNil \<and> contents h t = [VStr k] \<longrightarrow>
      TagMap h (WithTags base t) =
        map_sum id (\<lambda>r. ([VStr k \<mapsto> VStr ''unbalanced tag''] ++ fst r, snd r))
          (TagMap (fst (append1 h t (VStr ''unbalanced tag''))) base)) \<and>
   (contents h t = [VStr k] \<longrightarrow>
      TagMap h (WithTags (plainError d) t) =
        Inr ([VStr k \<mapsto> VStr ''unbalanced tag''], fst (append1 h t (VStr ''unbalanced tag''))) \<and>
      GetTagMap h (NewTags (plainError d) t) =
        Inr ([VStr k \<mapsto> VStr ''unbalanced tag''], fst (append1 h t (VStr ''unbalanced tag''))))"
proof -
  have a: "asTagger x = Some s \<and> odd (s_len s) \<longrightarrow>
      tagMapIter x (m, h) =
        map_sum id (\<lambda>m'. (False, (m', fst (append1 h s (VStr ''unbalanced tag'')))))
          (putAll (pairs (contents h s @ [VStr ''unbalanced tag''])) m)"
    by (simp add: tagMapIter_odd)
  have b: "tagMapIter x (m, h) \<noteq> Inl IndexOutOfRange \<and>
      tagMapIter x (m, h) \<noteq> Inl NilDereference"
    by (rule tagMapIter_not_index)
  have c: "base \<noteq> ErrNil \<and> contents h t = [VStr k] \<longrightarrow>
      TagMap h (WithTags base t) =
        map_sum id (\<lambda>r. ([VStr k \<mapsto> VStr ''unbalanced tag''] ++ fst r, snd r))
          (TagMap (fst (append1 h t (VStr ''unbalanced tag''))) base)"
    using TagMap_WithTags_single [of base h t "VStr k"] by simp
  have d: "contents h t = [VStr k] \<longrightarrow>
      TagMap h (WithTags (plainError d) t) =
        Inr ([VStr k \<mapsto> VStr ''unbalanced tag''], fst (append1 h t (VStr ''unbalanced tag''))) \<and>
      GetTagMap h (NewTags (plainError d) t) =
        Inr ([VStr k \<mapsto> VStr ''unbalanced tag''], fst (append1 h t (VStr ''unbalanced tag'')))"
    using TagMap_WithTags_single [OF plainError_not_nil, of h t "VStr k" d]
      GetTagMap_NewTags_single [of h t "VStr k" "plainError d"]
    by (simp add: TagMap_plainError GetTagMap_plainError)
  from a b c d show ?thesis by blast
qed

theorem unbalanced_tags_witness:
  "asTagger (withTags (plainError ''base'') (whole 0 1)) = Some (whole 0 1) \<and>
   odd (s_len (whole 0 1)) \<and>
   contents (store emptyHeap 0 [VStr ''k'']) (whole 0 1) = [VStr ''k''] \<and>
   tagMapIter (withTags (plainError ''base'') (whole 0 1)) (Map.empty, store emptyHeap 0 [VStr ''k'']) =
     Inr (False, ([VStr ''k'' \<mapsto> VStr ''unbalanced tag''], store emptyHeap 0 [VStr ''k''])) \<and>
   plainError ''base'' \<noteq> ErrNil \<and>
   TagMap (store emptyHeap 0 [VStr ''k'']) (WithTags (plainError ''base'') (whole 0 1)) =
     Inr ([VStr ''k'' \<mapsto> VStr ''unbalanced tag''], store emptyHeap 0 [VStr ''k'']) \<and>
   GetTagMap (store emptyHeap 0 [VStr ''k'']) (NewTags (plainError ''base'') (whole 0 1)) =
     Inr ([VStr ''k'' \<mapsto> VStr ''unbalanced tag''], store emptyHeap 0 [VStr ''k''])"
proof -
  let ?h = "store emptyHeap 0 [VStr ''k'']"
  have at: "asTagger (withTags (plainError ''base'') (whole 0 1)) = Some (whole 0 1)" by simp
  have od: "odd (s_len (whole 0 1))" by (simp add: whole_def)
  have ck: "contents ?h (whole 0 1) = [VStr ''k'']"
    by (simp add: contents_def store_def whole_def arrayOf_def)
  show ?thesis
    using unbalanced_tags [where x = "withTags (plainError ''base'') (whole 0 1)"
        and s = "whole 0 1" and m = Map.empty and h = ?h and base = "plainError ''base''"
        and t = "whole 0 1" and k = "''k''" and d = "''base''"] at od ck plainError_not_nil [of "''base''"]
    by (simp add: append1_whole TagMap_plainError)
qed

text \<open>
  C10. When the chain ends at a node that has no \<^verbatim>\<open>Unwrap()\<close> and that node
  implements the tag capability with payload \<open>p\<close>, \<^verbatim>\<open>Tags\<close> and \<^verbatim>\<open>GetTags\<close> return
  the payloads of the nodes before it in chain order, followed by the entries of
  \<open>p\<close> twice: the walker invokes the iterator on that node in the loop and again in
  its final return.
\<close>

theorem terminal_tags_twice:
  assumes "chain e \<noteq> []" and "unwrap (last (chain e)) = None"
    and "asTagger (last (chain e)) = Some p"
  shows "Tags h e =
           Inr (concat (map (payload h) (butlast (chain e))) @ contents h p @ contents h p) \<and>
         GetTags h e =
           Inr (concat (map (payload h) (butlast (chain e))) @ contents h p @ contents h p)"
proof -
  from assms(1,2) have lc: "lastCall e = last (chain e)"
    by (simp add: lastCall_chain)
  from assms(3) have pl: "payload h (last (chain e)) = contents h p"
    by (simp add: payload_def)
  have "concat (map (payload h) (chain e)) =
      concat (map (payload h) (butlast (chain e) @ [last (chain e)]))"
    using assms(1) by simp
  then have cc: "concat (map (payload h) (chain e)) =
      concat (map (payload h) (butlast (chain e))) @ contents h p"
    by (simp add: pl)
  show ?thesis
    by (simp add: Tags_spec GetTags_spec lc pl cc)
qed

theorem terminal_tags_twice_witness:
  "chain (WithTags (taggedLeaf ''t'' (whole 0 2)) (whole 2 2)) \<noteq> [] \<and>
   unwrap (last (chain (WithTags (taggedLeaf ''t'' (whole 0 2)) (whole 2 2)))) = None \<and>
   asTagger (last (chain (WithTags (taggedLeaf ''t'' (whole 0 2)) (whole 2 2)))) =
     Some (whole 0 2) \<and>
   contents (store (store emptyHeap 0 [VStr ''a'', VInt 1]) 2 [VStr ''b'', VInt 2]) (whole 0 2) =
     [VStr ''a'', VInt 1] \<and>
   Tags (store (store emptyHeap 0 [VStr ''a'', VInt 1]) 2 [VStr ''b'', VInt 2])
      (WithTags (taggedLeaf ''t'' (whole 0 2)) (whole 2 2)) =
     Inr [VStr ''b'', VInt 2, VStr ''a'', VInt 1, VStr ''a'', VInt 1] \<and>
   GetTags (store (store emptyHeap 0 [VStr ''a'', VInt 1]) 2 [VStr ''b'', VInt 2])
      (WithTags (taggedLeaf ''t'' (whole 0 2)) (whole 2 2)) =
     Inr [VStr ''b'', VInt 2, VStr ''a'', VInt 1, VStr ''a'', VInt 1]"
proof -
  let ?h = "store (store emptyHeap 0 [VStr ''a'', VInt 1]) 2 [VStr ''b'', VInt 2]"
  let ?e = "WithTags (taggedLeaf ''t'' (whole 0 2)) (whole 2 2)"
  have ch: "chain ?e = [withTags (taggedLeaf ''t'' (whole 0 2)) (whole 2 2),
      taggedLeaf ''t'' (whole 0 2)]"
    by (simp add: WithTags_def taggedLeaf_def chain.simps [of "withTags _ _"] chain.simps [of "Foreign _"])
  have ca: "contents ?h (whole 0 2) = [VStr ''a'', VInt 1]"
    by (simp add: contents_def store_def whole_def arrayOf_def eval_nat_numeral)
  have cb: "contents ?h (whole 2 2) = [VStr ''b'', VInt 2]"
    by (simp add: contents_def store_def whole_def arrayOf_def eval_nat_numeral)
  have 1: "chain ?e \<noteq> []" by (simp add: ch)
  have 2: "unwrap (last (chain ?e)) = None"
    unfolding ch by (simp add: taggedLeaf_def)
  have 3: "asTagger (last (chain ?e)) = Some (whole 0 2)"
    unfolding ch by (simp add: taggedLeaf_def)
  have 4: "concat (map (payload ?h) (butlast (chain ?e))) = [VStr ''b'', VInt 2]"
    unfolding ch by (simp add: payload_def cb)
  show ?thesis
    using terminal_tags_twice [OF 1 2 3, of ?h] 1 2 3 ca
    unfolding 4 by simp
qed

subsection \<open>Names\<close>

text \<open>
  C7. \<^verbatim>\<open>IsNamed(node, name)\<close> holds exactly when the node itself is a combined
  wrapper whose name is \<open>name\<close> and \<open>name\<close> is not empty; \<^verbatim>\<open>IsAnyCauseNamed\<close> holds
  exactly when some node of the chain satisfies \<^verbatim>\<open>IsNamed\<close>; \<^verbatim>\<open>IsRootCauseNamed\<close>
  checks the root cause alone. For the chain of a wrapper without a name around a
  wrapper named \<^verbatim>\<open>"N"\<close> around a plain root, \<^verbatim>\<open>IsAnyCauseNamed\<close> is true,
  \<^verbatim>\<open>IsRootCauseNamed\<close> is false, and \<^verbatim>\<open>IsNamed\<close> of the chain itself is false.
\<close>

theorem named_checks:
  "IsNamed node name = ((\<exists>inner kvs. node = extended inner name kvs) \<and> name \<noteq> []) \<and>
   IsAnyCauseNamed e name = Inr (list_ex (\<lambda>x. IsNamed x name) (chain e)) \<and>
   IsRootCauseNamed e name = IsNamed (errors_Cause e) name \<and>
   IsAnyCauseNamed (NewTags (NewNamed (plainError d) ''N'' kvs1) kvs2) ''N'' = Inr True \<and>
   IsRootCauseNamed (NewTags (NewNamed (plainError d) ''N'' kvs1) kvs2) ''N'' = False \<and>
   IsNamed (NewTags (NewNamed (plainError d) ''N'' kvs1) kvs2) ''N'' = False"
proof -
  have a: "IsNamed node name = ((\<exists>inner kvs. node = extended inner name kvs) \<and> name \<noteq> [])"
    by (cases node) (auto simp add: IsNamed_def)
  have b: "IsAnyCauseNamed e name = Inr (list_ex (\<lambda>x. IsNamed x name) (chain e))"
    by (rule IsAnyCauseNamed_chain)
  have c: "IsRootCauseNamed e name = IsNamed (errors_Cause e) name"
    by (simp add: IsRootCauseNamed_def)
  have d: "IsAnyCauseNamed (NewTags (NewNamed (plainError d) ''N'' kvs1) kvs2) ''N'' = Inr True"
    by (simp add: IsAnyCauseNamed_chain NewTags_def NewNamed_def chain.simps [of "extended _ _ _"]
        IsNamed_def)
  have e: "IsRootCauseNamed (NewTags (NewNamed (plainError d) ''N'' kvs1) kvs2) ''N'' = False"
    by (simp add: IsRootCauseNamed_def NewTags_def NewNamed_def errors_Cause_extended plainError_def
        errors_Cause_Foreign IsNamed_def)
  have f: "IsNamed (NewTags (NewNamed (plainError d) ''N'' kvs1) kvs2) ''N'' = False"
    by (simp add: NewTags_def IsNamed_def)
  from a b c d e f show ?thesis by blast
qed

subsection \<open>Rendering\<close>

text \<open>
  C6. Over an error whose description is \<open>d\<close>, the description of the code
  wrapper is \<^verbatim>\<open>"error code "\<close>, the code in decimal, \<^verbatim>\<open>" : "\<close> and \<open>d\<close>; that of the
  status wrapper is \<^verbatim>\<open>"http status "\<close>, the status in decimal, \<^verbatim>\<open>" : "\<close> and \<open>d\<close>.
  The status 500 around the code 1 around the root \<^verbatim>\<open>"X"\<close> renders as
  \<^verbatim>\<open>"http status 500 : error code 1 : X"\<close>. The decimal form of a natural number
  reads back as that number.
\<close>

theorem wrapper_rendering:
  "(Error e = Inr d \<longrightarrow>
      Error (WithErrorCode e c) = Inr (''error code '' @ fmt_d c @ '' : '' @ d) \<and>
      Error (WithHttpStatus e c) = Inr (''http status '' @ fmt_d c @ '' : '' @ d)) \<and>
   Error (WithHttpStatus (WithErrorCode (plainError ''X'') 1) 500) =
     Inr ''http status 500 : error code 1 : X'' \<and>
   fmt_d (int n) = digits n \<and> readDigits (digits n) = n"
proof -
  have a: "Error e = Inr d \<longrightarrow>
      Error (WithErrorCode e c) = Inr (''error code '' @ fmt_d c @ '' : '' @ d) \<and>
      Error (WithHttpStatus e c) = Inr (''http status '' @ fmt_d c @ '' : '' @ d)"
    by (auto simp add: WithErrorCode_def WithHttpStatus_def)
  have b: "Error (WithHttpStatus (WithErrorCode (plainError ''X'') 1) 500) =
     Inr ''http status 500 : error code 1 : X''"
    by (simp add: plainError_def WithHttpStatus_def WithErrorCode_def fmt_d_def digits.simps digit_def)
  have c: "fmt_d (int n) = digits n \<and> readDigits (digits n) = n"
    by (simp add: fmt_d_def readDigits_digits)
  from a b c show ?thesis by simp
qed

theorem wrapper_rendering_witness:
  "Error (plainError ''X'') = Inr ''X'' \<and>
   Error (WithErrorCode (plainError ''X'') 1) = Inr ''error code 1 : X'' \<and>
   Error (WithHttpStatus (plainError ''X'') (- 42)) = Inr ''http status -42 : X''"
proof -
  have x: "Error (plainError ''X'') = Inr ''X''" by (simp add: plainError_def)
  have f1: "fmt_d 1 = ''1''" by (simp add: fmt_d_def digits.simps digit_def)
  have f42: "fmt_d (- 42) = ''-42''" by (simp add: fmt_d_def digits.simps digit_def)
  show ?thesis
    using wrapper_rendering [of "plainError ''X''" "''X''" 1] wrapper_rendering [of "plainError ''X''" "''X''" "- 42"] x
    by (simp add: f1 f42)
qed

subsection \<open>The walker\<close>

text \<open>
  C3. What the walker does at nil and at a node without \<^verbatim>\<open>Unwrap()\<close>. On nil the
  edition with the four wrappers returns false and does not invoke the iterator;
  the combined edition invokes it on nil and returns its result. On a node without
  \<^verbatim>\<open>Unwrap()\<close> whose first invocation returns false the iterator is invoked a
  second time, by the final \<^verbatim>\<open>return f(err)\<close>, and that result is returned. The
  tag iterator is invoked on every node of a chain in chain order and then once
  more, on the node without \<^verbatim>\<open>Unwrap()\<close> where the chain ends, or on nil when the
  last \<^verbatim>\<open>Unwrap()\<close> returned nil: walked over a single foreign node that has
  tags, it is invoked on it twice and collects its tags twice.
\<close>

theorem walker_final_call:
  "walkErrorChain f ErrNil s = Inr (False, s) \<and>
   walkErrorChain_ext f ErrNil s = f ErrNil s \<and>
   walkErrorChain f (Foreign x) s =
     (case f (Foreign x) s of
        Inl p \<Rightarrow> Inl p
      | Inr (stop, s') \<Rightarrow> if stop then Inr (True, s') else f (Foreign x) s') \<and>
   walkErrorChain (traced (tagsIter h)) e ([], []) =
     (if e = ErrNil then Inr (False, ([], []))
      else Inr (False, (concat (map (payload h) (chain e)) @ payload h (lastCall e),
                        chain e @ [lastCall e]))) \<and>
   lastCall e =
     (if chain e \<noteq> [] \<and> unwrap (last (chain e)) = None then last (chain e) else ErrNil) \<and>
   walkErrorChain (traced (tagsIter h)) (taggedLeaf d kvs) ([], []) =
     Inr (False, (contents h kvs @ contents h kvs, [taggedLeaf d kvs, taggedLeaf d kvs])) \<and>
   walkErrorChain_ext (traced (tagsIter h)) ErrNil ([], []) = Inr (False, ([], [ErrNil]))"
proof -
  have a: "walkErrorChain f ErrNil s = Inr (False, s) \<and> walkErrorChain_ext f ErrNil s = f ErrNil s"
    by (simp add: walkErrorChain_def walkErrorChain_ext_def)
  have b: "walkErrorChain f (Foreign x) s =
     (case f (Foreign x) s of
        Inl p \<Rightarrow> Inl p
      | Inr (stop, s') \<Rightarrow> if stop then Inr (True, s') else f (Foreign x) s')"
    by (simp add: walkErrorChain_def walkLoop.simps [of f "Foreign x"] split: sum.splits)
  have c: "walkErrorChain (traced (tagsIter h)) e ([], []) =
     (if e = ErrNil then Inr (False, ([], []))
      else Inr (False, (concat (map (payload h) (chain e)) @ payload h (lastCall e),
                        chain e @ [lastCall e])))"
    by (simp add: walkErrorChain_def walkLoop_traced_tagsIter)
  have d: "lastCall e =
     (if chain e \<noteq> [] \<and> unwrap (last (chain e)) = None then last (chain e) else ErrNil)"
    by (rule lastCall_chain)
  have e: "walkErrorChain (traced (tagsIter h)) (taggedLeaf d kvs) ([], []) =
     Inr (False, (contents h kvs @ contents h kvs, [taggedLeaf d kvs, taggedLeaf d kvs]))"
    by (simp add: walkErrorChain_def walkLoop.simps [of _ "Foreign _"]
      taggedLeaf_def traced_def tagsIter_def)
  have f: "walkErrorChain_ext (traced (tagsIter h)) ErrNil ([], []) = Inr (False, ([], [ErrNil]))"
    by (simp add: walkErrorChain_ext_def traced_def tagsIter_def)
  from a b c d e f show ?thesis by simp
qed

end
